theory Spec2Isabelle
  imports Complex_Main
begin

section \<open>Matrix storage (determinant.h, determinant.cpp lines 13-81)\<close>

text \<open>
  The class \<^verbatim>\<open>Matrix\<close> owns a \<^verbatim>\<open>std::unique_ptr<long double[]>\<close> and a
  \<^verbatim>\<open>size_t size\<close>. Ownership, copying and moving are what several properties are
  about, so the model keeps two stores: the \<^verbatim>\<open>Matrix\<close> objects (by object identity,
  which is what \<^verbatim>\<open>this != &other\<close> compares) and the heap of array buffers (by
  address). \<^verbatim>\<open>nullptr\<close> is \<open>None\<close>.

  \<^item> \<^verbatim>\<open>long double\<close> is modelled by \<open>real\<close>: exact arithmetic, no rounding, no NaN
    and no infinities.
  \<^item> \<^verbatim>\<open>size_t\<close> is modelled by \<open>nat\<close>, 64 bits wide; the two places where the source
    multiplies or adds sizes (\<^verbatim>\<open>n * n\<close>, \<^verbatim>\<open>i * size + j\<close>) have the wrap-around
    modulo \<open>2 ^ 64\<close> written out.
  \<^item> Reading or writing outside a buffer, or through \<^verbatim>\<open>nullptr\<close> or a dangling
    pointer, is undefined behaviour in the source. The model is total there (\<open>deref\<close>
    gives the empty list, such a write changes nothing); the theorems that depend on the
    elements are stated for matrices that satisfy the class invariant, where every index
    the engine forms is in range.
  \<^item> An allocation is taken to succeed (no \<^verbatim>\<open>std::bad_alloc\<close>).
\<close>

type_synonym addr = nat
type_synonym ref = nat

record Matrix =
  data :: "addr option"
  size_m :: nat

record world =
  objs :: "ref \<Rightarrow> Matrix option"
  heap :: "addr \<Rightarrow> real list option"
  next_addr :: addr

definition size_t_mod :: nat where
  "size_t_mod = 2 ^ 64"

definition size_mul :: "nat \<Rightarrow> nat \<Rightarrow> nat" where
  "size_mul a b = (a * b) mod size_t_mod"

definition this_obj :: "world \<Rightarrow> ref \<Rightarrow> Matrix" where
  "this_obj w r = (case objs w r of Some m \<Rightarrow> m | None \<Rightarrow> \<lparr>data = None, size_m = 0\<rparr>)"

definition deref :: "world \<Rightarrow> addr option \<Rightarrow> real list" where
  "deref w p = (case p of None \<Rightarrow> [] | Some a \<Rightarrow> (case heap w a of None \<Rightarrow> [] | Some b \<Rightarrow> b))"

text \<open>
  \<^verbatim>\<open>std::make_unique<long double[]>(cnt)\<close> is \<^verbatim>\<open>new long double[cnt]()\<close>: a fresh array
  of \<open>cnt\<close> value-initialised elements, that is, every element is \<open>0.0L\<close>. The
  allocator hands out the next unused address.
\<close>

definition make_unique :: "world \<Rightarrow> nat \<Rightarrow> addr \<times> world" where
  "make_unique w cnt =
     (next_addr w,
      w\<lparr>heap := (heap w)(next_addr w \<mapsto> replicate cnt 0), next_addr := Suc (next_addr w)\<rparr>)"


text \<open>\<^verbatim>\<open>std::copy(src, src + cnt, dst)\<close> on raw pointers.\<close>

definition std_copy :: "world \<Rightarrow> addr option \<Rightarrow> nat \<Rightarrow> addr \<Rightarrow> world" where
  "std_copy w src cnt dst =
     w\<lparr>heap := (heap w)(dst \<mapsto> take cnt (deref w src) @ drop cnt (deref w (Some dst)))\<rparr>"

text \<open>\<^verbatim>\<open>size_t Matrix::index(size_t i, size_t j) const\<close>\<close>

definition index :: "world \<Rightarrow> ref \<Rightarrow> nat \<Rightarrow> nat \<Rightarrow> nat" where
  "index w this i j = (i * size_m (this_obj w this) + j) mod size_t_mod"

text \<open>\<^verbatim>\<open>Matrix::Matrix(size_t n)\<close>, constructing the object \<open>this\<close>.\<close>

definition Matrix_ctor :: "world \<Rightarrow> ref \<Rightarrow> nat \<Rightarrow> world" where
  "Matrix_ctor w this n =
     (let (a, w1) = make_unique w (size_mul n n)
      in w1\<lparr>objs := (objs w1)(this \<mapsto> \<lparr>data = Some a, size_m = n\<rparr>)\<rparr>)"

text \<open>\<^verbatim>\<open>Matrix::Matrix(const Matrix& other)\<close>\<close>

definition Matrix_copy_ctor :: "world \<Rightarrow> ref \<Rightarrow> ref \<Rightarrow> world" where
  "Matrix_copy_ctor w this other =
     (let n = size_m (this_obj w other);
          (a, w1) = make_unique w (size_mul n n);
          w2 = w1\<lparr>objs := (objs w1)(this \<mapsto> \<lparr>data = Some a, size_m = n\<rparr>)\<rparr>
      in std_copy w2 (data (this_obj w2 other))
           (size_mul (size_m (this_obj w2 this)) (size_m (this_obj w2 this))) a)"




text \<open>
  \<^verbatim>\<open>long double& Matrix::operator()(size_t i, size_t j)\<close>: \<open>elem\<close> reads through the
  reference, \<open>assign\<close> writes through it.
\<close>

definition elem :: "world \<Rightarrow> ref \<Rightarrow> nat \<Rightarrow> nat \<Rightarrow> real" where
  "elem w this i j = deref w (data (this_obj w this)) ! index w this i j"

definition assign :: "world \<Rightarrow> ref \<Rightarrow> nat \<Rightarrow> nat \<Rightarrow> real \<Rightarrow> world" where
  "assign w this i j v =
     w\<lparr>heap :=
         (case data (this_obj w this) of
            None \<Rightarrow> heap w
          | Some a \<Rightarrow>
              (case heap w a of
                 None \<Rightarrow> heap w
               | Some b \<Rightarrow> (heap w)(a \<mapsto> b[index w this i j := v])))\<rparr>"

text \<open>\<^verbatim>\<open>size_t Matrix::getSize() const\<close>\<close>

definition getSize :: "world \<Rightarrow> ref \<Rightarrow> nat" where
  "getSize w this = size_m (this_obj w this)"

text \<open>\<^verbatim>\<open>std::swap((*this)(i, k), (*this)(j, k))\<close>\<close>

definition swap_elems :: "world \<Rightarrow> ref \<Rightarrow> nat \<Rightarrow> nat \<Rightarrow> nat \<Rightarrow> world" where
  "swap_elems w this i j k =
     (let tmp = elem w this i k;
          w1 = assign w this i k (elem w this j k)
      in assign w1 this j k tmp)"

text \<open>\<^verbatim>\<open>void Matrix::swapRows(size_t i, size_t j)\<close>: the loop over \<open>k\<close>, then the method.\<close>

function swapRows_loop :: "world \<Rightarrow> ref \<Rightarrow> nat \<Rightarrow> nat \<Rightarrow> nat \<Rightarrow> world" where
  "swapRows_loop w this i j k =
     (if k < size_m (this_obj w this)
      then swapRows_loop (swap_elems w this i j k) this i j (k + 1)
      else w)"
  by pat_completeness auto
termination
  by (relation "measure (\<lambda>(w, this, i, j, k). size_m (this_obj w this) - k)")
     (auto simp: swap_elems_def assign_def this_obj_def Let_def)

definition swapRows :: "world \<Rightarrow> ref \<Rightarrow> nat \<Rightarrow> nat \<Rightarrow> world" where
  "swapRows w this i j = (if i = j then w else swapRows_loop w this i j 0)"

text \<open>\<^verbatim>\<open>Matrix Matrix::copy() const\<close>: the returned object is constructed at \<open>result\<close>.\<close>

definition copy :: "world \<Rightarrow> ref \<Rightarrow> ref \<Rightarrow> world" where
  "copy w this result = Matrix_copy_ctor w result this"

section \<open>Determinant engine (determinant.cpp lines 83-148)\<close>

text \<open>
  The locals of \<^verbatim>\<open>calculateDeterminant\<close>. The permutation record \<^verbatim>\<open>pivot\<close> is a
  local array that is released on return; it is kept as a list here.
\<close>

record locals =
  pivot :: "nat list"
  det :: real
  sign :: int

text \<open>Lines 90-97: the identity permutation, \<^verbatim>\<open>det = 1.0L\<close>, \<^verbatim>\<open>sign = 1\<close>.\<close>

definition init_locals :: "nat \<Rightarrow> locals" where
  "init_locals n = \<lparr>pivot = [0..<n], det = 1, sign = 1\<rparr>"

text \<open>The literal \<^verbatim>\<open>1e-15L\<close> of line 127.\<close>

definition singular_eps :: real where
  "singular_eps = 1 / 10 ^ 15"

text \<open>Lines 106-114: the scan of column \<open>k\<close> below the diagonal.\<close>

function find_pivot :: "world \<Rightarrow> ref \<Rightarrow> nat \<Rightarrow> nat \<Rightarrow> nat \<Rightarrow> nat \<Rightarrow> real \<Rightarrow> nat \<times> real" where
  "find_pivot w matrix n k i pivot_row max_val =
     (if i < n then
        (if \<bar>elem w matrix i k\<bar> > max_val
         then find_pivot w matrix n k (i + 1) i \<bar>elem w matrix i k\<bar>
         else find_pivot w matrix n k (i + 1) pivot_row max_val)
      else (pivot_row, max_val))"
  by pat_completeness auto
termination
  by (relation "measure (\<lambda>(w, matrix, n, k, i, pivot_row, max_val). n - i)") auto

text \<open>Lines 103-114: \<^verbatim>\<open>pivot_row\<close> as it stands after the scan.\<close>

definition pivot_search :: "world \<Rightarrow> ref \<Rightarrow> nat \<Rightarrow> nat \<Rightarrow> nat" where
  "pivot_search w matrix n k = fst (find_pivot w matrix n k (k + 1) k \<bar>elem w matrix k k\<bar>)"

text \<open>Lines 117-122: the row swap, the swap in the permutation record, the sign flip.\<close>

definition pivot_swap :: "world \<Rightarrow> ref \<Rightarrow> nat \<Rightarrow> nat \<Rightarrow> locals \<Rightarrow> world \<times> locals" where
  "pivot_swap w matrix k pivot_row l =
     (if pivot_row \<noteq> k
      then (swapRows w matrix k pivot_row,
            l\<lparr>pivot := (pivot l)[k := pivot l ! pivot_row, pivot_row := pivot l ! k],
              sign := - sign l\<rparr>)
      else (w, l))"

text \<open>Lines 140-143: the loop over the columns \<open>j\<close> of row \<open>i\<close>.\<close>

function eliminate_row :: "world \<Rightarrow> ref \<Rightarrow> nat \<Rightarrow> nat \<Rightarrow> nat \<Rightarrow> real \<Rightarrow> nat \<Rightarrow> world" where
  "eliminate_row w matrix n k i factor j =
     (if j < n
      then eliminate_row
             (assign w matrix i j (elem w matrix i j - factor * elem w matrix k j))
             matrix n k i factor (j + 1)
      else w)"
  by pat_completeness auto
termination
  by (relation "measure (\<lambda>(w, matrix, n, k, i, factor, j). n - j)") auto

text \<open>Lines 135-144: the loop over the rows \<open>i\<close> below the diagonal.\<close>

function eliminate :: "world \<Rightarrow> ref \<Rightarrow> nat \<Rightarrow> nat \<Rightarrow> real \<Rightarrow> nat \<Rightarrow> world" where
  "eliminate w matrix n k pivot_val i =
     (if i < n
      then eliminate
             (eliminate_row (assign w matrix i k (elem w matrix i k / pivot_val)) matrix n k i
                (elem w matrix i k / pivot_val) (k + 1))
             matrix n k pivot_val (i + 1)
      else w)"
  by pat_completeness auto
termination
  by (relation "measure (\<lambda>(w, matrix, n, k, pivot_val, i). n - i)") auto

text \<open>
  Lines 102-144: one pass of the loop over \<open>k\<close>. \<open>Inl\<close> is the \<^verbatim>\<open>return 0.0L\<close> of
  line 129, with the world as it is at that moment; \<open>Inr\<close> goes on to the next column.
\<close>

definition lu_body :: "world \<Rightarrow> ref \<Rightarrow> nat \<Rightarrow> nat \<Rightarrow> locals \<Rightarrow> (real \<times> world) + (world \<times> locals)" where
  "lu_body w matrix n k l =
     (let pivot_row = pivot_search w matrix n k;
          (w1, l1) = pivot_swap w matrix k pivot_row l;
          pivot_val = elem w1 matrix k k
      in if \<bar>pivot_val\<bar> < singular_eps then Inl (0, w1)
         else Inr (eliminate w1 matrix n k pivot_val (k + 1), l1\<lparr>det := det l1 * pivot_val\<rparr>))"

text \<open>Lines 100-147: the loop over \<open>k\<close> and the final \<^verbatim>\<open>return\<close>.\<close>

function lu_loop :: "world \<Rightarrow> ref \<Rightarrow> nat \<Rightarrow> nat \<Rightarrow> locals \<Rightarrow> real \<times> world" where
  "lu_loop w matrix n k l =
     (if k < n then
        (case lu_body w matrix n k l of
           Inl res \<Rightarrow> res
         | Inr s \<Rightarrow> lu_loop (fst s) matrix n (k + 1) (snd s))
      else (det l * real_of_int (sign l), w))"
  by pat_completeness auto
termination
  by (relation "measure (\<lambda>(w, matrix, n, k, l). n - k)") auto

text \<open>
  \<^verbatim>\<open>long double DeterminantCalculator::calculateDeterminant(Matrix& matrix)\<close>: the
  result and the world it leaves behind.
\<close>

definition calculateDeterminant :: "world \<Rightarrow> ref \<Rightarrow> real \<times> world" where
  "calculateDeterminant w matrix =
     (let n = getSize w matrix
      in if n = 0 then (1, w)
         else if n = 1 then (elem w matrix 0 0, w)
         else lu_loop w matrix n 0 (init_locals n))"

text \<open>
  For stating what happens at column \<open>k\<close>: the world and the locals at the start of
  pass \<open>k\<close> of the loop, obtained by running \<open>lu_body\<close> for the columns before it;
  \<open>None\<close> when the function has already returned.
\<close>

fun state_at :: "world \<Rightarrow> ref \<Rightarrow> nat \<Rightarrow> locals \<Rightarrow> nat \<Rightarrow> (world \<times> locals) option" where
  "state_at w matrix n l 0 = Some (w, l)"
| "state_at w matrix n l (Suc k) =
     (case state_at w matrix n l k of
        None \<Rightarrow> None
      | Some s \<Rightarrow>
          (if k < n then
             (case lu_body (fst s) matrix n k (snd s) of Inl res \<Rightarrow> None | Inr s' \<Rightarrow> Some s')
           else None))"

text \<open>
  The row selected at column \<open>k\<close> (\<^verbatim>\<open>pivot_row\<close> after line 114) and the pivot value
  read at column \<open>k\<close> (\<^verbatim>\<open>pivot_val\<close> of line 124) in the run of
  \<^verbatim>\<open>calculateDeterminant\<close> on \<open>matrix\<close>.
\<close>

definition pivot_row_at :: "world \<Rightarrow> ref \<Rightarrow> nat \<Rightarrow> nat" where
  "pivot_row_at w matrix k =
     (case state_at w matrix (getSize w matrix) (init_locals (getSize w matrix)) k of
        None \<Rightarrow> k
      | Some s \<Rightarrow> pivot_search (fst s) matrix (getSize w matrix) k)"

definition pivot_val_at :: "world \<Rightarrow> ref \<Rightarrow> nat \<Rightarrow> real" where
  "pivot_val_at w matrix k =
     (case state_at w matrix (getSize w matrix) (init_locals (getSize w matrix)) k of
        None \<Rightarrow> 0
      | Some s \<Rightarrow>
          elem (fst (pivot_swap (fst s) matrix k
                       (pivot_search (fst s) matrix (getSize w matrix) k) (snd s)))
            matrix k k)"

text \<open>
  What a call that works on the matrix \<open>r\<close> may change: nothing but the contents of the
  buffer \<open>r\<close> owns.
\<close>

definition frame :: "ref \<Rightarrow> world \<Rightarrow> world \<Rightarrow> bool" where
  "frame r w w' \<longleftrightarrow>
     objs w' = objs w \<and> next_addr w' = next_addr w \<and>
     (\<forall>a. Some a \<noteq> data (this_obj w r) \<longrightarrow> heap w' a = heap w a) \<and>
     (\<forall>a. map_option length (heap w' a) = map_option length (heap w a))"

section \<open>The file-based loader (determinant.cpp lines 150-192)\<close>

text \<open>
  The text of the file is taken as already cut into lines and each line into what
  successive extractions \<^verbatim>\<open>stream >> value\<close> meet: a number that is read, or something
  that is not a number, at which the extraction fails. The end of a line fails as well. A
  file that cannot be opened is \<open>None\<close>.
\<close>

datatype token = Num real | Junk

text \<open>
  The \<^verbatim>\<open>std::runtime_error\<close>s of the two loaders, by their messages: three of
  \<^verbatim>\<open>readFromFile\<close>, two of \<^verbatim>\<open>readFromUserInput\<close> (with the row number of the
  message).
\<close>

datatype error = CannotOpenFile | NotEnoughRows | NotEnoughColumns
  | NotEnoughNumbers nat | TooManyNumbers nat

text \<open>Lines 164-167: \<^verbatim>\<open>while (first_line >> value) ++size;\<close>\<close>

fun count_values :: "token list \<Rightarrow> nat" where
  "count_values (Num v # rest) = Suc (count_values rest)"
| "count_values _ = 0"

text \<open>
  Lines 182-188: the loop over \<open>j\<close>, reading row \<open>i\<close> from what is left of its line;
  \<open>sz\<close> is the local \<^verbatim>\<open>size\<close>.
\<close>

function read_row :: "world \<Rightarrow> ref \<Rightarrow> nat \<Rightarrow> nat \<Rightarrow> token list \<Rightarrow> nat \<Rightarrow> error + world" where
  "read_row w matrix sz i iss j =
     (if j < sz then
        (case iss of
           Num v # rest \<Rightarrow> read_row (assign w matrix i j v) matrix sz i rest (j + 1)
         | _ \<Rightarrow> Inl NotEnoughColumns)
      else Inr w)"
  by pat_completeness auto
termination
  by (relation "measure (\<lambda>(w, matrix, sz, i, iss, j). sz - j)") auto

text \<open>Lines 174-189: the loop over \<open>i\<close>; \<open>file\<close> is what \<^verbatim>\<open>std::getline\<close> has not yet read.\<close>

function read_rows :: "world \<Rightarrow> ref \<Rightarrow> nat \<Rightarrow> token list list \<Rightarrow> nat \<Rightarrow> error + world" where
  "read_rows w matrix sz file i =
     (if i < sz then
        (case file of
           [] \<Rightarrow> Inl NotEnoughRows
         | line # rest \<Rightarrow>
             (case read_row w matrix sz i line 0 of
                Inl e \<Rightarrow> Inl e
              | Inr w' \<Rightarrow> read_rows w' matrix sz rest (i + 1)))
      else Inr w)"
  by pat_completeness auto
termination
  by (relation "measure (\<lambda>(w, matrix, sz, file, i). sz - i)") auto

text \<open>
  \<^verbatim>\<open>Matrix MatrixReader::readFromFile(const std::string& filename)\<close>: the matrix is
  built in the object \<open>matrix\<close>; a thrown exception is \<open>Inl\<close>, and then no matrix is
  returned.
\<close>

definition readFromFile :: "world \<Rightarrow> ref \<Rightarrow> token list list option \<Rightarrow> error + world" where
  "readFromFile w matrix file =
     (case file of
        None \<Rightarrow> Inl CannotOpenFile
      | Some lines \<Rightarrow>
          (let sz = count_values (case lines of [] \<Rightarrow> [] | line # rest \<Rightarrow> line);
               w1 = Matrix_ctor w matrix sz
           in read_rows w1 matrix sz lines 0))"

section \<open>The interactive loader (determinant.cpp lines 194-233)\<close>

text \<open>
  Lines 217-223: the loop over \<open>j\<close> of \<^verbatim>\<open>readFromUserInput\<close>. It returns what is left of
  the line as well, since line 226 goes on reading from it.
\<close>

function read_user_row ::
  "world \<Rightarrow> ref \<Rightarrow> nat \<Rightarrow> nat \<Rightarrow> token list \<Rightarrow> nat \<Rightarrow> error + (world \<times> token list)" where
  "read_user_row w matrix sz i iss j =
     (if j < sz then
        (case iss of
           Num v # rest \<Rightarrow> read_user_row (assign w matrix i j v) matrix sz i rest (j + 1)
         | _ \<Rightarrow> Inl (NotEnoughNumbers (i + 1)))
      else Inr (w, iss))"
  by pat_completeness auto
termination
  by (relation "measure (\<lambda>(w, matrix, sz, i, iss, j). sz - j)") auto

text \<open>
  Lines 210-230: the loop over \<open>i\<close>; \<open>input\<close> is what is left of the standard input, in
  lines. At the end of the input \<^verbatim>\<open>std::getline\<close> leaves the line empty. Lines 225-229
  are the test for one value too many.
\<close>

function read_user_rows :: "world \<Rightarrow> ref \<Rightarrow> nat \<Rightarrow> token list list \<Rightarrow> nat \<Rightarrow> error + world" where
  "read_user_rows w matrix sz input i =
     (if i < sz then
        (case read_user_row w matrix sz i (case input of [] \<Rightarrow> [] | line # rest \<Rightarrow> line) 0 of
           Inl e \<Rightarrow> Inl e
         | Inr (w', iss) \<Rightarrow>
             (case iss of
                Num extra # rest \<Rightarrow> Inl (TooManyNumbers (i + 1))
              | _ \<Rightarrow> read_user_rows w' matrix sz (tl input) (i + 1)))
      else Inr w)"
  by pat_completeness auto
termination
  by (relation "measure (\<lambda>(w, matrix, sz, input, i). sz - i)") auto

text \<open>
  \<^verbatim>\<open>Matrix MatrixReader::readFromUserInput()\<close>, given the size that was typed and the
  lines that follow it.
\<close>

definition readFromUserInput :: "world \<Rightarrow> ref \<Rightarrow> nat \<Rightarrow> token list list \<Rightarrow> error + world" where
  "readFromUserInput w matrix sz input =
     (if sz = 0 then Inr (Matrix_ctor w matrix 0)
      else read_user_rows (Matrix_ctor w matrix sz) matrix sz input 0)"

section \<open>The class invariant\<close>

text \<open>
  A \<^verbatim>\<open>Matrix\<close> object is valid when it either is_matrix \<^verbatim>\<open>nullptr\<close> and has size 0 (the
  moved-from state), or is_matrix a live array of exactly \<open>size * size\<close> elements, a
  count that fits \<^verbatim>\<open>size_t\<close>.
\<close>

definition Matrix_inv :: "world \<Rightarrow> ref \<Rightarrow> bool" where
  "Matrix_inv w r =
     (case objs w r of
        None \<Rightarrow> False
      | Some m \<Rightarrow>
          (case data m of
             None \<Rightarrow> size_m m = 0
           | Some a \<Rightarrow>
               (case heap w a of
                  None \<Rightarrow> False
                | Some b \<Rightarrow> length b = size_m m * size_m m \<and> length b < size_t_mod)))"

text \<open>
  A world is well formed when every object is valid, no two objects hold the same array
  (which is what \<^verbatim>\<open>unique_ptr\<close> is for), and the allocator has not yet handed out
  the addresses from \<open>next_addr\<close> on.
\<close>

definition world_inv :: "world \<Rightarrow> bool" where
  "world_inv w \<longleftrightarrow>
     (\<forall>r. objs w r \<noteq> None \<longrightarrow> Matrix_inv w r) \<and>
     (\<forall>r r' a. objs w r \<noteq> None \<and> objs w r' \<noteq> None \<and>
        data (this_obj w r) = Some a \<and> data (this_obj w r') = Some a \<longrightarrow> r = r') \<and>
     (\<forall>a. heap w a \<noteq> None \<longrightarrow> a < next_addr w)"

section \<open>The determinant as a specification\<close>

text \<open>
  The determinant of the \<open>n\<close> by \<open>n\<close> matrix \<open>A\<close> (a function of row and column), by
  expansion along the first column. \<open>minor A i\<close> is \<open>A\<close> without row \<open>i\<close> and without
  column 0. This is the mathematical determinant against which the result of the engine is
  compared; it is not a translation of any code.
\<close>

definition minor :: "(nat \<Rightarrow> nat \<Rightarrow> real) \<Rightarrow> nat \<Rightarrow> nat \<Rightarrow> nat \<Rightarrow> real" where
  "minor A i = (\<lambda>r c. A (if r < i then r else Suc r) (Suc c))"

fun laplace_det :: "nat \<Rightarrow> (nat \<Rightarrow> nat \<Rightarrow> real) \<Rightarrow> real" where
  "laplace_det 0 A = 1"
| "laplace_det (Suc n) A = (\<Sum>i<Suc n. (- 1) ^ i * A i 0 * laplace_det n (minor A i))"

text \<open>
  Row operations on such functions, for the proofs: \<open>row_upd A r u\<close> is \<open>A\<close> with
  row \<open>r\<close> replaced by \<open>u\<close>; \<open>swaprows a b A\<close> is \<open>A\<close> with the rows \<open>a\<close> and \<open>b\<close>
  exchanged; \<open>elim_rows A t\<close> is \<open>A\<close> after the multiples of row 0 that clear column 0
  have been subtracted from the rows \<open>1..t\<close>; \<open>schur A\<close> is what one pass of the
  elimination leaves below and to the right of the pivot \<open>A 0 0\<close>.
\<close>

definition row_upd :: "(nat \<Rightarrow> nat \<Rightarrow> real) \<Rightarrow> nat \<Rightarrow> (nat \<Rightarrow> real) \<Rightarrow> nat \<Rightarrow> nat \<Rightarrow> real" where
  "row_upd A r u = (\<lambda>i j. if i = r then u j else A i j)"

definition elim_rows :: "(nat \<Rightarrow> nat \<Rightarrow> real) \<Rightarrow> nat \<Rightarrow> nat \<Rightarrow> nat \<Rightarrow> real" where
  "elim_rows A t = (\<lambda>i j. if 1 \<le> i \<and> i \<le> t then A i j - A i 0 / A 0 0 * A 0 j else A i j)"

definition schur :: "(nat \<Rightarrow> nat \<Rightarrow> real) \<Rightarrow> nat \<Rightarrow> nat \<Rightarrow> real" where
  "schur A = (\<lambda>i j. A (Suc i) (Suc j) - A (Suc i) 0 / A 0 0 * A 0 (Suc j))"

definition swap_idx :: "nat \<Rightarrow> nat \<Rightarrow> nat \<Rightarrow> nat" where
  "swap_idx a b i = (if i = a then b else if i = b then a else i)"

definition swaprows :: "nat \<Rightarrow> nat \<Rightarrow> (nat \<Rightarrow> nat \<Rightarrow> real) \<Rightarrow> nat \<Rightarrow> nat \<Rightarrow> real" where
  "swaprows a b A = (\<lambda>i j. A (swap_idx a b i) j)"

text \<open>
  The object \<open>r\<close> is an \<open>n\<close> by \<open>n\<close> matrix that owns the live buffer at address \<open>p\<close>, of
  \<open>n * n\<close> elements.
\<close>

definition is_matrix :: "world \<Rightarrow> ref \<Rightarrow> nat \<Rightarrow> addr \<Rightarrow> bool" where
  "is_matrix w r n p \<longleftrightarrow>
     objs w r = Some \<lparr>data = Some p, size_m = n\<rparr> \<and> n * n < size_t_mod \<and>
     (\<exists>buf. heap w p = Some buf \<and> length buf = n * n)"

text \<open>The rows and columns from \<open>k\<close> on of the matrix \<open>r\<close>, as a function.\<close>

definition trailing :: "nat \<Rightarrow> world \<Rightarrow> ref \<Rightarrow> nat \<Rightarrow> nat \<Rightarrow> real" where
  "trailing k w r = (\<lambda>i j. elem w r (k + i) (k + j))"

section \<open>Example worlds\<close>

text \<open>A world with one matrix: the object 0 owns the buffer at address 0.\<close>

definition one_matrix :: "nat \<Rightarrow> real list \<Rightarrow> world" where
  "one_matrix n xs =
     \<lparr>objs = [0 \<mapsto> \<lparr>data = Some 0, size_m = n\<rparr>], heap = [0 \<mapsto> xs], next_addr = 1\<rparr>"

text \<open>A world with two matrices.\<close>

definition two_matrices :: "nat \<Rightarrow> real list \<Rightarrow> nat \<Rightarrow> real list \<Rightarrow> world" where
  "two_matrices n xs m ys =
     \<lparr>objs = [0 \<mapsto> \<lparr>data = Some 0, size_m = n\<rparr>, 1 \<mapsto> \<lparr>data = Some 1, size_m = m\<rparr>],
      heap = [0 \<mapsto> xs, 1 \<mapsto> ys], next_addr = 2\<rparr>"

definition empty_world :: world where
  "empty_world = \<lparr>objs = Map.empty, heap = Map.empty, next_addr = 0\<rparr>"

declare swapRows_loop.simps [simp del] find_pivot.simps [simp del]
  eliminate_row.simps [simp del] eliminate.simps [simp del] lu_loop.simps [simp del]
  read_row.simps [simp del] read_rows.simps [simp del] laplace_det.simps(2) [simp del]
  read_user_row.simps [simp del] read_user_rows.simps [simp del]

section \<open>What a call of the engine may change\<close>

lemma objs_assign [simp]: "objs (assign w this i j v) = objs w"
  by (simp add: assign_def)


lemma frame_refl: "frame r w w"
  by (simp add: frame_def)

lemma frame_trans: "frame r w w1 \<Longrightarrow> frame r w1 w2 \<Longrightarrow> frame r w w2"
  by (auto simp: frame_def this_obj_def)

lemma frame_assign: "frame r w (assign w r i j v)"
  by (auto simp: frame_def assign_def split: option.splits)

lemma frame_swap_elems: "frame r w (swap_elems w r i j k)"
  unfolding swap_elems_def Let_def
  by (rule frame_trans [OF frame_assign frame_assign])

lemma frame_size: "frame r w w' \<Longrightarrow> this_obj w' r' = this_obj w r'"
  by (simp add: frame_def this_obj_def)

lemma frame_swapRows_loop: "frame r w (swapRows_loop w r i j k)"
proof (induction w r i j k rule: swapRows_loop.induct)
  case (1 w this i j k)
  show ?case
  proof (cases "k < size_m (this_obj w this)")
    case True
    from "1.IH" [OF True] frame_swap_elems [of this w i j k]
    have "frame this w (swapRows_loop (swap_elems w this i j k) this i j (k + 1))"
      by (rule frame_trans [rotated])
    with True show ?thesis by (simp add: swapRows_loop.simps [of w])
  next
    case False
    then show ?thesis by (simp add: frame_refl swapRows_loop.simps [of w])
  qed
qed

lemma frame_swapRows: "frame r w (swapRows w r i j)"
  by (simp add: swapRows_def frame_refl frame_swapRows_loop)

lemma frame_eliminate_row: "frame r w (eliminate_row w r n k i factor j)"
proof (induction w r n k i factor j rule: eliminate_row.induct)
  case (1 w matrix n k i factor j)
  show ?case
  proof (cases "j < n")
    case True
    from frame_assign "1.IH" [OF True]
    have "frame matrix w (eliminate_row
             (assign w matrix i j (elem w matrix i j - factor * elem w matrix k j))
             matrix n k i factor (j + 1))"
      by (rule frame_trans)
    with True show ?thesis by (simp add: eliminate_row.simps [of w])
  next
    case False
    then show ?thesis by (simp add: frame_refl eliminate_row.simps [of w])
  qed
qed

lemma frame_eliminate: "frame r w (eliminate w r n k pivot_val i)"
proof (induction w r n k pivot_val i rule: eliminate.induct)
  case (1 w matrix n k pivot_val i)
  show ?case
  proof (cases "i < n")
    case True
    have "frame matrix w (eliminate_row (assign w matrix i k (elem w matrix i k / pivot_val)) matrix n k i
                (elem w matrix i k / pivot_val) (k + 1))"
      by (rule frame_trans [OF frame_assign frame_eliminate_row])
    from this "1.IH" [OF True]
    have "frame matrix w (eliminate
             (eliminate_row (assign w matrix i k (elem w matrix i k / pivot_val)) matrix n k i
                (elem w matrix i k / pivot_val) (k + 1))
             matrix n k pivot_val (i + 1))"
      by (rule frame_trans)
    with True show ?thesis by (simp add: eliminate.simps [of w])
  next
    case False
    then show ?thesis by (simp add: frame_refl eliminate.simps [of w])
  qed
qed

lemma frame_pivot_swap: "frame r w (fst (pivot_swap w r k p l))"
  by (simp add: pivot_swap_def frame_refl frame_swapRows)

lemma lu_body_eq:
  "lu_body w r n k l =
     (if \<bar>elem (fst (pivot_swap w r k (pivot_search w r n k) l)) r k k\<bar> < singular_eps
      then Inl (0, fst (pivot_swap w r k (pivot_search w r n k) l))
      else Inr (eliminate (fst (pivot_swap w r k (pivot_search w r n k) l)) r n k
                  (elem (fst (pivot_swap w r k (pivot_search w r n k) l)) r k k) (k + 1),
                (snd (pivot_swap w r k (pivot_search w r n k) l))
                  \<lparr>det := det (snd (pivot_swap w r k (pivot_search w r n k) l)) *
                     elem (fst (pivot_swap w r k (pivot_search w r n k) l)) r k k\<rparr>))"
  by (simp add: lu_body_def Let_def split: prod.split)

lemma frame_lu_body_Inl: "lu_body w r n k l = Inl res \<Longrightarrow> frame r w (snd res)"
  by (auto simp: lu_body_eq frame_pivot_swap split: if_splits)

lemma frame_lu_body_Inr: "lu_body w r n k l = Inr s \<Longrightarrow> frame r w (fst s)"
  by (auto simp: lu_body_eq split: if_splits
      intro: frame_trans [OF frame_pivot_swap frame_eliminate])

lemma frame_lu_loop: "frame r w (snd (lu_loop w r n k l))"
proof (induction w r n k l rule: lu_loop.induct)
  case (1 w matrix n k l)
  show ?case
  proof (cases "k < n")
    case False
    then show ?thesis by (simp add: lu_loop.simps [of w] frame_refl)
  next
    case True
    show ?thesis
    proof (cases "lu_body w matrix n k l")
      case (Inl res)
      with True frame_lu_body_Inl [OF Inl] show ?thesis
        by (simp add: lu_loop.simps [of w])
    next
      case (Inr s)
      from frame_lu_body_Inr [OF Inr] "1.IH" [OF True Inr]
      have "frame matrix w (snd (lu_loop (fst s) matrix n (k + 1) (snd s)))"
        by (rule frame_trans)
      with True Inr show ?thesis
        by (simp add: lu_loop.simps [of w])
    qed
  qed
qed

lemma frame_calculateDeterminant: "frame r w (snd (calculateDeterminant w r))"
  by (simp add: calculateDeterminant_def Let_def frame_refl frame_lu_loop)

lemma lu_loop_state_at:
  "state_at w r n l k = Some s \<Longrightarrow> k \<le> n \<Longrightarrow> lu_loop w r n 0 l = lu_loop (fst s) r n k (snd s)"
proof (induction k arbitrary: s)
  case 0
  then show ?case by auto
next
  case (Suc k)
  from Suc.prems obtain s0 where s0: "state_at w r n l k = Some s0"
    and body: "lu_body (fst s0) r n k (snd s0) = Inr s" and kn: "k < n"
    by (auto split: option.splits if_splits sum.splits)
  from Suc.IH [OF s0] kn have "lu_loop w r n 0 l = lu_loop (fst s0) r n k (snd s0)"
    by simp
  also from kn body have "\<dots> = lu_loop (fst s) r n (Suc k) (snd s)"
    by (simp add: lu_loop.simps [of "fst s0"])
  finally show ?case .
qed

lemma find_pivot_inv:
  assumes "k \<le> p" "p < i" "i \<le> n" "mx = \<bar>elem w r p k\<bar>"
    and "\<forall>i'. k \<le> i' \<and> i' < i \<longrightarrow> \<bar>elem w r i' k\<bar> \<le> mx"
    and "\<forall>i'. k \<le> i' \<and> i' < p \<longrightarrow> \<bar>elem w r i' k\<bar> < mx"
  shows "k \<le> fst (find_pivot w r n k i p mx) \<and> fst (find_pivot w r n k i p mx) < n \<and>
     snd (find_pivot w r n k i p mx) = \<bar>elem w r (fst (find_pivot w r n k i p mx)) k\<bar> \<and>
     (\<forall>i'. k \<le> i' \<and> i' < n \<longrightarrow> \<bar>elem w r i' k\<bar> \<le> snd (find_pivot w r n k i p mx)) \<and>
     (\<forall>i'. k \<le> i' \<and> i' < fst (find_pivot w r n k i p mx) \<longrightarrow>
         \<bar>elem w r i' k\<bar> < snd (find_pivot w r n k i p mx))"
  using assms
proof (induction w r n k i p mx rule: find_pivot.induct)
  case (1 w matrix n k i pivot_row max_val)
  show ?case
  proof (cases "i < n")
    case False
    with "1.prems" have "i = n" by simp
    with "1.prems" show ?thesis by (simp add: find_pivot.simps [of w matrix n k n])
  next
    case True
    show ?thesis
    proof (cases "\<bar>elem w matrix i k\<bar> > max_val")
      case gt: True
      have a: "\<forall>i'. k \<le> i' \<and> i' < i + 1 \<longrightarrow> \<bar>elem w matrix i' k\<bar> \<le> \<bar>elem w matrix i k\<bar>"
      proof (intro allI impI)
        fix i' assume "k \<le> i' \<and> i' < i + 1"
        then have "i' < i \<or> i' = i" by auto
        with \<open>k \<le> i' \<and> i' < i + 1\<close> "1.prems"(5) gt show "\<bar>elem w matrix i' k\<bar> \<le> \<bar>elem w matrix i k\<bar>"
          by (metis dual_order.strict_trans2 less_le_not_le linorder_linear)
      qed
      have b: "\<forall>i'. k \<le> i' \<and> i' < i \<longrightarrow> \<bar>elem w matrix i' k\<bar> < \<bar>elem w matrix i k\<bar>"
        using "1.prems"(5) gt by (meson le_less_trans)
      from "1.prems" True have ki: "k \<le> i" "i < i + 1" "i + 1 \<le> n" by auto
      from True gt have eq: "find_pivot w matrix n k i pivot_row max_val =
          find_pivot w matrix n k (i + 1) i \<bar>elem w matrix i k\<bar>"
        by (simp add: find_pivot.simps [of w matrix n k i])
      show ?thesis unfolding eq by (rule "1.IH"(1) [OF True gt ki refl a b])
    next
      case le: False
      have a: "\<forall>i'. k \<le> i' \<and> i' < i + 1 \<longrightarrow> \<bar>elem w matrix i' k\<bar> \<le> max_val"
      proof (intro allI impI)
        fix i' assume h: "k \<le> i' \<and> i' < i + 1"
        then have "i' < i \<or> i' = i" by auto
        with h "1.prems"(5) le show "\<bar>elem w matrix i' k\<bar> \<le> max_val"
          by auto
      qed
      from "1.prems" True have ki: "k \<le> pivot_row" "pivot_row < i + 1" "i + 1 \<le> n" by auto
      from True le have eq: "find_pivot w matrix n k i pivot_row max_val =
          find_pivot w matrix n k (i + 1) pivot_row max_val"
        by (simp add: find_pivot.simps [of w matrix n k i])
      show ?thesis unfolding eq by (rule "1.IH"(2) [OF True le ki "1.prems"(4) a "1.prems"(6)])
    qed
  qed
qed

section \<open>Evaluation on concrete worlds\<close>

lemmas world_eval = one_matrix_def two_matrices_def empty_world_def getSize_def this_obj_def elem_def assign_def
  index_def deref_def size_t_mod_def swap_elems_def swapRows_def swapRows_loop.simps

lemmas engine_eval = calculateDeterminant_def init_locals_def lu_body_eq pivot_search_def
  pivot_swap_def find_pivot.simps eliminate_row.simps eliminate.simps lu_loop.simps
  singular_eps_def pivot_row_at_def pivot_val_at_def Let_def upt_conv_Cons


section \<open>The scenarios of the specification\<close>

text \<open>
  The five concrete scenarios of section 8 of the specification, run on the model: a 1x1
  matrix, a 2x2 matrix, a diagonal 3x3 matrix, a singular 3x3 matrix and the empty matrix.
\<close>

lemma specification_scenarios:
  "fst (calculateDeterminant (one_matrix 1 [5]) 0) = 5"
  "fst (calculateDeterminant (one_matrix 2 [1, 2, 3, 4]) 0) = - 2"
  "fst (calculateDeterminant (one_matrix 3 [2, 0, 0, 0, 3, 0, 0, 0, 4]) 0) = 24"
  "fst (calculateDeterminant (one_matrix 3 [1, 2, 3, 2, 4, 6, 7, 8, 9]) 0) = 0"
  "fst (calculateDeterminant (one_matrix 0 []) 0) = 1"
  by (simp_all add: world_eval engine_eval)

section \<open>The trivial sizes\<close>

text \<open>
  Claim C2. For a matrix of size 0 the engine returns 1, for a matrix of size 1 it returns
  the element \<open>matrix(0,0)\<close>; in both cases the world is returned as it was: nothing is
  eliminated and no rows are swapped.
\<close>

theorem trivial_sizes:
  "(getSize w matrix = 0 \<longrightarrow> calculateDeterminant w matrix = (1, w)) \<and>
   (getSize w matrix = 1 \<longrightarrow> calculateDeterminant w matrix = (elem w matrix 0 0, w))"
  by (simp add: calculateDeterminant_def)

text \<open>
  The empty matrix and the 1x1 matrix \<open>[[5]]\<close>.
\<close>

theorem trivial_sizes_witness:
  "getSize (one_matrix 0 []) 0 = 0 \<and> fst (calculateDeterminant (one_matrix 0 []) 0) = 1 \<and>
   getSize (one_matrix 1 [5]) 0 = 1 \<and> fst (calculateDeterminant (one_matrix 1 [5]) 0) = 5 \<and>
   snd (calculateDeterminant (one_matrix 1 [5]) 0) = one_matrix 1 [5]"
proof -
  have s0: "getSize (one_matrix 0 []) 0 = 0" and s1: "getSize (one_matrix 1 [5]) 0 = 1"
    by (simp_all add: world_eval)
  have e: "elem (one_matrix 1 [5]) 0 0 0 = 5"
    by (simp add: world_eval)
  from trivial_sizes [of "one_matrix 0 []" 0] trivial_sizes [of "one_matrix 1 [5]" 0] s0 s1 e
  show ?thesis by simp
qed

section \<open>Pivot selection\<close>

lemma pivot_search_first_max:
  assumes "k < n"
  shows "k \<le> pivot_search w r n k \<and> pivot_search w r n k < n \<and>
     (\<forall>i. k \<le> i \<and> i < n \<longrightarrow> \<bar>elem w r i k\<bar> \<le> \<bar>elem w r (pivot_search w r n k) k\<bar>) \<and>
     (\<forall>i. k \<le> i \<and> i < pivot_search w r n k \<longrightarrow>
         \<bar>elem w r i k\<bar> < \<bar>elem w r (pivot_search w r n k) k\<bar>)"
proof -
  have a: "\<forall>i'. k \<le> i' \<and> i' < k + 1 \<longrightarrow> \<bar>elem w r i' k\<bar> \<le> \<bar>elem w r k k\<bar>"
    by (auto simp: le_less_Suc_eq)
  have b: "\<forall>i'. k \<le> i' \<and> i' < k \<longrightarrow> \<bar>elem w r i' k\<bar> < \<bar>elem w r k k\<bar>"
    by auto
  from assms have c: "k \<le> k" "k < k + 1" "k + 1 \<le> n" by auto
  from find_pivot_inv [OF c refl a b] show ?thesis
    unfolding pivot_search_def by metis
qed



section \<open>The singularity threshold\<close>




section \<open>Sign bookkeeping and the product of the pivots\<close>

lemma state_at_Suc:
  assumes "state_at w r n l (Suc k) = Some s"
  obtains s0 where "state_at w r n l k = Some s0" "k < n" "lu_body (fst s0) r n k (snd s0) = Inr s"
  using assms by (auto split: option.splits if_splits sum.splits)


lemma lu_body_Inr:
  assumes "lu_body w r n k l = Inr s"
  shows "fst s = eliminate (if pivot_search w r n k \<noteq> k then swapRows w r k (pivot_search w r n k) else w)
                   r n k (elem (fst (pivot_swap w r k (pivot_search w r n k) l)) r k k) (k + 1)"
    and "det (snd s) = det l * elem (fst (pivot_swap w r k (pivot_search w r n k) l)) r k k"
    and "sign (snd s) = (if pivot_search w r n k \<noteq> k then - sign l else sign l)"
    and "singular_eps \<le> \<bar>elem (fst (pivot_swap w r k (pivot_search w r n k) l)) r k k\<bar>"
  using assms by (auto simp: lu_body_eq pivot_swap_def split: if_splits)



lemma calculateDeterminant_completes:
  assumes "n = getSize w matrix"
    and "state_at w matrix n (init_locals n) n = Some s"
  shows "calculateDeterminant w matrix = (det (snd s) * real_of_int (sign (snd s)), fst s)"
proof -
  have loop: "lu_loop w matrix n 0 (init_locals n) = (det (snd s) * real_of_int (sign (snd s)), fst s)"
    using lu_loop_state_at [OF assms(2)] by (simp add: lu_loop.simps [of "fst s"])
  consider "n = 0" | "n = 1" | "2 \<le> n" by linarith
  then have "calculateDeterminant w matrix = lu_loop w matrix n 0 (init_locals n)"
  proof cases
    case 1
    with assms(1) show ?thesis
      by (simp add: calculateDeterminant_def lu_loop.simps [of w] init_locals_def)
  next
    case 2
    have ps: "pivot_search w matrix (Suc 0) 0 = 0"
      by (simp add: pivot_search_def find_pivot.simps [of w matrix "Suc 0" 0 "Suc 0"])
    from assms(2) 2 have "lu_body w matrix (Suc 0) 0 (init_locals (Suc 0)) = Inr s"
      by (auto split: sum.splits)
    from lu_body_Inr(4) [OF this] have "\<not> \<bar>elem w matrix 0 0\<bar> < singular_eps"
      by (simp add: ps pivot_swap_def)
    with 2 assms(1) ps show ?thesis
      by (simp add: calculateDeterminant_def lu_loop.simps [of w matrix "Suc 0" 0]
          lu_loop.simps [of w matrix "Suc 0" "Suc 0"]
          lu_body_eq pivot_swap_def eliminate.simps [of w matrix "Suc 0" 0] init_locals_def)
  next
    case 3
    with assms(1) show ?thesis
      by (simp add: calculateDeterminant_def Let_def)
  qed
  with loop show ?thesis by simp
qed




section \<open>Construction\<close>

text \<open>
  Claim C5, as amended. \<^verbatim>\<open>Matrix(n)\<close> records the size \<open>n\<close> and owns a fresh buffer of
  \<open>n * n\<close> elements (the product taken in \<^verbatim>\<open>size_t\<close>, that is modulo \<open>2^64\<close>), every
  one of which is 0: \<^verbatim>\<open>std::make_unique<long double[]>\<close> value-initialises the array.
\<close>

theorem Matrix_ctor_zero_initialised:
  "objs (Matrix_ctor w this n) this = Some \<lparr>data = Some (next_addr w), size_m = n\<rparr> \<and>
   heap (Matrix_ctor w this n) (next_addr w) = Some (replicate ((n * n) mod 2 ^ 64) 0) \<and>
   getSize (Matrix_ctor w this n) this = n \<and>
   deref (Matrix_ctor w this n) (data (this_obj (Matrix_ctor w this n) this)) =
     replicate ((n * n) mod 2 ^ 64) 0"
  by (simp add: Matrix_ctor_def make_unique_def size_mul_def size_t_mod_def getSize_def
      this_obj_def deref_def)

text \<open>
  Against claim C5 as stated: there is no \<open>n > 0\<close> for which a freshly constructed
  matrix has an element different from 0.
\<close>

theorem Matrix_ctor_nonzero_element_counterexample:
  "\<not> (\<exists>w this n. 0 < n \<and>
        (\<exists>x \<in> set (deref (Matrix_ctor w this n) (data (this_obj (Matrix_ctor w this n) this))).
           x \<noteq> 0))"
  by (simp add: Matrix_ctor_def make_unique_def size_mul_def size_t_mod_def this_obj_def deref_def)

section \<open>The dimension is not touched by the engine\<close>

lemma frame_this_obj: "frame r w w' \<Longrightarrow> this_obj w' r' = this_obj w r'"
  by (simp add: frame_def this_obj_def)

lemma frame_length_deref: "frame r w w' \<Longrightarrow> length (deref w' p) = length (deref w p)"
proof (cases p)
  case None
  then show ?thesis by (simp add: deref_def)
next
  case (Some a)
  assume "frame r w w'"
  then have "map_option length (heap w' a) = map_option length (heap w a)"
    by (simp add: frame_def)
  with Some show ?thesis
    by (cases "heap w a"; cases "heap w' a") (simp_all add: deref_def)
qed

text \<open>
  Claim C10. \<^verbatim>\<open>calculateDeterminant\<close> changes no \<^verbatim>\<open>Matrix\<close> object (so neither the
  \<^verbatim>\<open>size\<close> field nor the \<^verbatim>\<open>data\<close> pointer of any of them), \<^verbatim>\<open>getSize()\<close> returns the
  same value after the call as before, the buffer of the matrix keeps its length, nothing
  is allocated, and every buffer other than the one the matrix owns is left as it was:
  only element values of the matrix are overwritten.
\<close>

theorem calculateDeterminant_keeps_dimension:
  "objs (snd (calculateDeterminant w matrix)) = objs w \<and>
   getSize (snd (calculateDeterminant w matrix)) matrix = getSize w matrix \<and>
   length (deref (snd (calculateDeterminant w matrix))
             (data (this_obj (snd (calculateDeterminant w matrix)) matrix))) =
     length (deref w (data (this_obj w matrix))) \<and>
   next_addr (snd (calculateDeterminant w matrix)) = next_addr w \<and>
   (\<forall>a. Some a \<noteq> data (this_obj w matrix) \<longrightarrow>
        heap (snd (calculateDeterminant w matrix)) a = heap w a)"
proof -
  have f: "frame matrix w (snd (calculateDeterminant w matrix))"
    by (rule frame_calculateDeterminant)
  from f have "objs (snd (calculateDeterminant w matrix)) = objs w"
    and "next_addr (snd (calculateDeterminant w matrix)) = next_addr w"
    and "\<forall>a. Some a \<noteq> data (this_obj w matrix) \<longrightarrow>
        heap (snd (calculateDeterminant w matrix)) a = heap w a"
    by (simp_all add: frame_def)
  with frame_this_obj [OF f] frame_length_deref [OF f] show ?thesis
    by (simp add: getSize_def)
qed

text \<open>
  Two matrices in one world: the engine runs on the first, the second is not touched.
\<close>

theorem calculateDeterminant_keeps_dimension_witness:
  "Some 1 \<noteq> data (this_obj (two_matrices 2 [1, 2, 3, 4] 1 [7]) 0) \<and>
   heap (snd (calculateDeterminant (two_matrices 2 [1, 2, 3, 4] 1 [7]) 0)) 1 = Some [7] \<and>
   getSize (snd (calculateDeterminant (two_matrices 2 [1, 2, 3, 4] 1 [7]) 0)) 0 = 2 \<and>
   length (deref (snd (calculateDeterminant (two_matrices 2 [1, 2, 3, 4] 1 [7]) 0))
             (data (this_obj (snd (calculateDeterminant (two_matrices 2 [1, 2, 3, 4] 1 [7]) 0)) 0))) = 4 \<and>
   heap (snd (calculateDeterminant (two_matrices 2 [1, 2, 3, 4] 1 [7]) 0)) 0 = Some [3, 4, 1 / 3, 2 / 3]"
proof -
  let ?w = "two_matrices 2 [1, 2, 3, 4] 1 [7]"
  have h: "Some 1 \<noteq> data (this_obj ?w 0)" by (simp add: world_eval)
  have e: "heap ?w 1 = Some [7]" "getSize ?w 0 = 2" "length (deref ?w (data (this_obj ?w 0))) = 4"
    by (simp_all add: world_eval)
  have r: "heap (snd (calculateDeterminant ?w 0)) 0 = Some [3, 4, 1 / 3, 2 / 3]"
    by (simp add: world_eval engine_eval)
  from calculateDeterminant_keeps_dimension [of ?w 0] h e r show ?thesis
    by simp
qed

section \<open>Copies own their storage\<close>

lemma Matrix_invD:
  assumes "Matrix_inv w r" and "objs w r = Some m"
  shows "length (deref w (data m)) = size_m m * size_m m"
    and "size_m m * size_m m < size_t_mod"
    and "data m = Some a \<Longrightarrow> heap w a \<noteq> None"
  using assms by (auto simp: Matrix_inv_def deref_def size_t_mod_def split: option.splits)

lemma world_inv_Matrix_inv: "world_inv w \<Longrightarrow> objs w r = Some m \<Longrightarrow> Matrix_inv w r"
  by (simp add: world_inv_def)

lemma world_inv_live:
  assumes "world_inv w" and "objs w r = Some m" and "data m = Some a"
  shows "a < next_addr w" and "heap w a \<noteq> None"
proof -
  from assms(1,2) have "Matrix_inv w r" by (rule world_inv_Matrix_inv)
  from Matrix_invD(3) [OF this assms(2,3)] show "heap w a \<noteq> None" .
  with assms(1) show "a < next_addr w" by (simp add: world_inv_def)
qed



lemma Matrix_copy_ctor_eq:
  assumes "world_inv w" and "objs w other = Some M" and "this \<noteq> other"
  shows "Matrix_copy_ctor w this other =
     w\<lparr>objs := (objs w)(this \<mapsto> \<lparr>data = Some (next_addr w), size_m = size_m M\<rparr>),
       heap := (heap w)(next_addr w \<mapsto> deref w (data M)),
       next_addr := Suc (next_addr w)\<rparr>"
proof -
  from assms(1,2) have inv: "Matrix_inv w other" by (rule world_inv_Matrix_inv)
  note len = Matrix_invD(1,2) [OF inv assms(2)]
  have fresh: "data M \<noteq> Some (next_addr w)"
    using world_inv_live(1) [OF assms(1,2)] by auto
  have src: "deref (w\<lparr>heap := (heap w)(next_addr w \<mapsto> replicate (size_m M * size_m M) 0),
                      next_addr := Suc (next_addr w),
                      objs := (objs w)(this \<mapsto> \<lparr>data = Some (next_addr w), size_m = size_m M\<rparr>)\<rparr>)
               (data M) = deref w (data M)"
    using fresh by (cases "data M") (auto simp: deref_def)
  from len assms(2,3) show ?thesis
    by (simp add: Matrix_copy_ctor_def make_unique_def std_copy_def Let_def size_mul_def
        this_obj_def src) (simp add: deref_def)
qed

text \<open>
  Claim C7. In a well-formed world, let \<open>dup\<close> be a copy of the matrix \<open>m\<close> made by
  \<^verbatim>\<open>copy()\<close>, which is the copy constructor. The copy has the size of \<open>m\<close> and equal
  contents in a buffer of its own, at a fresh address that differs from the address of the
  buffer of \<open>m\<close>. After \<^verbatim>\<open>calculateDeterminant\<close> has run on \<open>dup\<close>, the object \<open>m\<close> and
  the contents of its buffer are what they were, and so is every buffer other than the
  one \<open>dup\<close> owns: all the writes of the engine went to the duplicate.
\<close>

theorem copy_then_engine_leaves_original:
  assumes "world_inv w" and "objs w m = Some M" and "dup \<noteq> m"
  shows "copy w m dup = Matrix_copy_ctor w dup m \<and>
     objs (copy w m dup) dup = Some \<lparr>data = Some (next_addr w), size_m = size_m M\<rparr> \<and>
     data M \<noteq> Some (next_addr w) \<and>
     deref (copy w m dup) (Some (next_addr w)) = deref w (data M) \<and>
     objs (snd (calculateDeterminant (copy w m dup) dup)) m = Some M \<and>
     deref (snd (calculateDeterminant (copy w m dup) dup)) (data M) = deref w (data M) \<and>
     (\<forall>a. a \<noteq> next_addr w \<longrightarrow>
          heap (snd (calculateDeterminant (copy w m dup) dup)) a = heap w a)"
proof -
  let ?w1 = "copy w m dup"
  let ?w2 = "snd (calculateDeterminant ?w1 dup)"
  have w1: "?w1 = w\<lparr>objs := (objs w)(dup \<mapsto> \<lparr>data = Some (next_addr w), size_m = size_m M\<rparr>),
       heap := (heap w)(next_addr w \<mapsto> deref w (data M)),
       next_addr := Suc (next_addr w)\<rparr>"
    unfolding copy_def by (rule Matrix_copy_ctor_eq [OF assms])
  have fresh: "data M \<noteq> Some (next_addr w)"
    using world_inv_live(1) [OF assms(1,2)] by auto
  have d1: "data (this_obj ?w1 dup) = Some (next_addr w)"
    by (simp add: w1 this_obj_def)
  have f: "frame dup ?w1 ?w2" by (rule frame_calculateDeterminant)
  then have o2: "objs ?w2 = objs ?w1"
    and h2: "\<And>a. a \<noteq> next_addr w \<Longrightarrow> heap ?w2 a = heap ?w1 a"
    unfolding frame_def d1 by auto
  have h1: "\<And>a. a \<noteq> next_addr w \<Longrightarrow> heap ?w1 a = heap w a"
    by (simp add: w1)
  have orig: "deref ?w2 (data M) = deref w (data M)"
  proof (cases "data M")
    case None
    then show ?thesis by (simp add: deref_def)
  next
    case (Some a)
    with fresh have "a \<noteq> next_addr w" by simp
    with h1 h2 have "heap ?w2 a = heap w a" by simp
    with Some show ?thesis by (simp add: deref_def)
  qed
  have "objs ?w2 m = Some M"
    using assms(2,3) by (simp add: o2) (simp add: w1)
  moreover have "objs ?w1 dup = Some \<lparr>data = Some (next_addr w), size_m = size_m M\<rparr>"
    by (simp add: w1)
  moreover have "deref ?w1 (Some (next_addr w)) = deref w (data M)"
    by (simp add: w1 deref_def)
  moreover have "\<forall>a. a \<noteq> next_addr w \<longrightarrow> heap ?w2 a = heap w a"
    using h1 h2 by simp
  ultimately show ?thesis
    using fresh orig by (simp add: copy_def)
qed

lemma world_inv_one_matrix:
  "length xs = n * n \<Longrightarrow> n * n < 2 ^ 64 \<Longrightarrow> world_inv (one_matrix n xs)"
  by (auto simp: world_inv_def Matrix_inv_def one_matrix_def this_obj_def size_t_mod_def
      split: if_splits)

text \<open>
  The matrix \<open>[[1, 2], [3, 4]]\<close> is copied and the engine runs on the copy: the original
  still holds 1, 2, 3, 4, the copy holds the factors 3, 4, 1/3, 2/3.
\<close>

theorem copy_then_engine_leaves_original_witness:
  "world_inv (one_matrix 2 [1, 2, 3, 4]) \<and>
   objs (one_matrix 2 [1, 2, 3, 4]) 0 = Some \<lparr>data = Some 0, size_m = 2\<rparr> \<and> (1::nat) \<noteq> 0 \<and>
   heap (copy (one_matrix 2 [1, 2, 3, 4]) 0 1) 1 = Some [1, 2, 3, 4] \<and>
   heap (snd (calculateDeterminant (copy (one_matrix 2 [1, 2, 3, 4]) 0 1) 1)) 0 = Some [1, 2, 3, 4] \<and>
   heap (snd (calculateDeterminant (copy (one_matrix 2 [1, 2, 3, 4]) 0 1) 1)) 1 =
     Some [3, 4, 1 / 3, 2 / 3] \<and>
   objs (snd (calculateDeterminant (copy (one_matrix 2 [1, 2, 3, 4]) 0 1) 1)) 0 =
     Some \<lparr>data = Some 0, size_m = 2\<rparr>"
proof -
  let ?w = "one_matrix 2 [1, 2, 3, 4]"
  have h1: "world_inv ?w" by (rule world_inv_one_matrix) simp_all
  have h2: "objs ?w 0 = Some \<lparr>data = Some 0, size_m = 2\<rparr>" by (simp add: one_matrix_def)
  have h3: "(1::nat) \<noteq> 0" by simp
  have n: "next_addr ?w = 1" "heap ?w 0 = Some [1, 2, 3, 4]" by (simp_all add: one_matrix_def)
  have c: "heap (copy ?w 0 1) 1 = Some [1, 2, 3, 4]"
    by (simp add: copy_def Matrix_copy_ctor_def make_unique_def std_copy_def size_mul_def
        Let_def world_eval)
  have e: "heap (snd (calculateDeterminant (copy ?w 0 1) 1)) 1 = Some [3, 4, 1 / 3, 2 / 3]"
    by (simp add: copy_def Matrix_copy_ctor_def make_unique_def std_copy_def size_mul_def
        world_eval engine_eval)
  note t = copy_then_engine_leaves_original [OF h1 h2 h3]
  from t have o: "objs (snd (calculateDeterminant (copy ?w 0 1) 1)) 0 =
      Some \<lparr>data = Some 0, size_m = 2\<rparr>"
    by (elim conjE)
  from t have "\<forall>a. a \<noteq> next_addr ?w \<longrightarrow>
      heap (snd (calculateDeterminant (copy ?w 0 1) 1)) a = heap ?w a"
    by (elim conjE)
  with n have "heap (snd (calculateDeterminant (copy ?w 0 1) 1)) 0 = Some [1, 2, 3, 4]"
    by simp
  with o have "objs (snd (calculateDeterminant (copy ?w 0 1) 1)) 0 =
      Some \<lparr>data = Some 0, size_m = 2\<rparr>"
    and "heap (snd (calculateDeterminant (copy ?w 0 1) 1)) 0 = Some [1, 2, 3, 4]"
    by simp_all
  with h1 h2 c e show ?thesis by simp
qed

section \<open>The class invariant is kept; moves leave the source empty\<close>








lemma Matrix_eta [simp]: "\<lparr>data = data M, size_m = size_m M\<rparr> = M"
  by (cases M) simp

lemma Matrix_update_both [simp]:
  "M\<lparr>data := d, size_m := n\<rparr> = \<lparr>data = d, size_m = n\<rparr>"
  "M\<lparr>size_m := n, data := d\<rparr> = \<lparr>data = d, size_m = n\<rparr>"
  by (cases M, simp)+











section \<open>The file-based loader does not reject a row that is too long\<close>

lemmas loader_eval = readFromFile_def read_rows.simps read_row.simps Matrix_ctor_def
  make_unique_def size_mul_def Let_def

lemma replicate_4: "replicate 4 x = [x, x, x, x]"
  by (simp add: numeral_eq_Suc)

lemma read_row_accepts:
  "(\<exists>w'. read_row w r sz i iss j = Inr w') \<longleftrightarrow> sz - j \<le> count_values iss"
proof (induction w r sz i iss j rule: read_row.induct)
  case (1 w matrix sz i iss j)
  show ?case
  proof (cases "j < sz")
    case False
    then show ?thesis by (simp add: read_row.simps [of w])
  next
    case True
    show ?thesis
    proof (cases iss)
      case Nil
      with True show ?thesis by (simp add: read_row.simps [of w])
    next
      case (Cons t rest)
      show ?thesis
      proof (cases t)
        case Junk
        with True Cons show ?thesis by (simp add: read_row.simps [of w])
      next
        case (Num v)
        from "1.IH" [OF True Cons Num]
        have "(\<exists>w'. read_row (assign w matrix i j v) matrix sz i rest (j + 1) = Inr w') \<longleftrightarrow>
            sz - (j + 1) \<le> count_values rest" .
        with True Cons Num show ?thesis
          by (simp add: read_row.simps [of w]) linarith
      qed
    qed
  qed
qed

lemma read_rows_accepts:
  "(\<exists>w'. read_rows w r sz fl i = Inr w') \<longleftrightarrow>
     sz - i \<le> length fl \<and> (\<forall>t < sz - i. sz \<le> count_values (fl ! t))"
proof (induction w r sz fl i rule: read_rows.induct)
  case (1 w matrix sz fl i)
  show ?case
  proof (cases "i < sz")
    case False
    then show ?thesis by (simp add: read_rows.simps [of w])
  next
    case True
    show ?thesis
    proof (cases fl)
      case Nil
      with True show ?thesis by (simp add: read_rows.simps [of w])
    next
      case (Cons line rest)
      show ?thesis
      proof (cases "read_row w matrix sz i line 0")
        case (Inl e)
        with read_row_accepts [of w matrix sz i line 0] have "\<not> sz \<le> count_values line" by simp
        moreover from True have "0 < sz - i" by simp
        ultimately have "\<not> (\<forall>t < sz - i. sz \<le> count_values (fl ! t))"
          using Cons by (auto intro!: exI [of _ 0])
        with True Cons Inl show ?thesis by (simp add: read_rows.simps [of w])
      next
        case (Inr w1)
        with read_row_accepts [of w matrix sz i line 0] have l: "sz \<le> count_values line" by auto
        from "1.IH" [OF True Cons Inr]
        have ih: "(\<exists>w'. read_rows w1 matrix sz rest (i + 1) = Inr w') \<longleftrightarrow>
            sz - (i + 1) \<le> length rest \<and> (\<forall>t < sz - (i + 1). sz \<le> count_values (rest ! t))" .
        have "(\<forall>t < sz - i. sz \<le> count_values (fl ! t)) \<longleftrightarrow>
            (\<forall>t < sz - (i + 1). sz \<le> count_values (rest ! t))"
        proof
          assume a: "\<forall>t < sz - i. sz \<le> count_values (fl ! t)"
          show "\<forall>t < sz - (i + 1). sz \<le> count_values (rest ! t)"
          proof (intro allI impI)
            fix t assume "t < sz - (i + 1)"
            then have "Suc t < sz - i" by simp
            with a have "sz \<le> count_values (fl ! Suc t)" by blast
            with Cons show "sz \<le> count_values (rest ! t)" by simp
          qed
        next
          assume a: "\<forall>t < sz - (i + 1). sz \<le> count_values (rest ! t)"
          show "\<forall>t < sz - i. sz \<le> count_values (fl ! t)"
          proof (intro allI impI)
            fix t assume t: "t < sz - i"
            show "sz \<le> count_values (fl ! t)"
            proof (cases t)
              case 0
              with l Cons show ?thesis by simp
            next
              case (Suc t')
              with t have "t' < sz - (i + 1)" by simp
              with a have "sz \<le> count_values (rest ! t')" by blast
              with Suc Cons show ?thesis by simp
            qed
          qed
        qed
        moreover from True Cons have "sz - i \<le> length fl \<longleftrightarrow> sz - (i + 1) \<le> length rest"
          by auto
        ultimately show ?thesis
          using True Cons Inr ih by (simp add: read_rows.simps [of w])
      qed
    qed
  qed
qed

text \<open>
  What \<^verbatim>\<open>readFromFile\<close> checks, exactly: with \<open>sz\<close> the number of values that lead the
  first line, it returns a matrix if and only if the file has at least \<open>sz\<close> lines and
  each of the first \<open>sz\<close> lines starts with at least \<open>sz\<close> values. A row with too few
  values and a file with too few rows are rejected; values beyond the first \<open>sz\<close> of a
  row, and lines beyond the first \<open>sz\<close>, are never looked at.
\<close>

theorem readFromFile_accepts_iff:
  "(\<exists>w'. readFromFile w r (Some lines) = Inr w') \<longleftrightarrow>
     count_values (case lines of [] \<Rightarrow> [] | line # rest \<Rightarrow> line) \<le> length lines \<and>
     (\<forall>t < count_values (case lines of [] \<Rightarrow> [] | line # rest \<Rightarrow> line).
        count_values (case lines of [] \<Rightarrow> [] | line # rest \<Rightarrow> line) \<le> count_values (lines ! t))"
  using read_rows_accepts
    [of "Matrix_ctor w r (count_values (case lines of [] \<Rightarrow> [] | line # rest \<Rightarrow> line))" r
        "count_values (case lines of [] \<Rightarrow> [] | line # rest \<Rightarrow> line)" lines 0]
  by (simp add: readFromFile_def Let_def)

text \<open>
  The interactive loader, given the size 2 and the same two rows, does reject the second
  row.
\<close>

lemma readFromUserInput_rejects_too_many_values:
  "readFromUserInput empty_world 0 2 [[Num 1, Num 2], [Num 3, Num 4, Num 5]] =
     Inl (TooManyNumbers 2)"
  by (simp add: readFromUserInput_def read_user_rows.simps read_user_row.simps
      Matrix_ctor_def make_unique_def size_mul_def world_eval replicate_4)

text \<open>
  Claim C6 fails on the code. The file with the lines \<^verbatim>\<open>1 2\<close> and \<^verbatim>\<open>3 4 5\<close> has a
  second row with too many values for the two columns of the first line.
  \<^verbatim>\<open>readFromFile\<close> throws nothing: it returns the 2x2 matrix \<open>[[1, 2], [3, 4]]\<close> and
  never looks at the \<open>5\<close>. (\<^verbatim>\<open>readFromUserInput\<close>, lines 225-229, tries one more
  extraction after each row and throws when it succeeds; \<^verbatim>\<open>readFromFile\<close> has no such
  test.)
\<close>

theorem readFromFile_accepts_too_many_values:
  "(case readFromFile empty_world 0 (Some [[Num 1, Num 2], [Num 3, Num 4, Num 5]]) of
      Inl e \<Rightarrow> False
    | Inr w' \<Rightarrow> getSize w' 0 = 2 \<and> deref w' (data (this_obj w' 0)) = [1, 2, 3, 4])"
  by (simp add: loader_eval world_eval replicate_4)

section \<open>The determinant, row operations and the Schur complement\<close>

lemma laplace_det_cong:
  "(\<And>i j. i < n \<Longrightarrow> j < n \<Longrightarrow> A i j = B i j) \<Longrightarrow> laplace_det n A = laplace_det n B"
proof (induction n arbitrary: A B)
  case 0
  show ?case by simp
next
  case (Suc n)
  have "\<And>i. i < Suc n \<Longrightarrow> laplace_det n (minor A i) = laplace_det n (minor B i)"
  proof -
    fix i assume "i < Suc n"
    show "laplace_det n (minor A i) = laplace_det n (minor B i)"
      by (rule Suc.IH) (simp add: minor_def Suc.prems)
  qed
  moreover have "\<And>i. i < Suc n \<Longrightarrow> A i 0 = B i 0"
    by (simp add: Suc.prems)
  ultimately show ?case
    by (simp add: laplace_det.simps(2))
qed

lemma minor_row_upd_same: "minor (row_upd A r x) r = minor A r"
  by (auto simp: minor_def row_upd_def fun_eq_iff)

lemma minor_row_upd_other:
  "i \<noteq> r \<Longrightarrow> minor (row_upd A r x) i =
     row_upd (minor A i) (if r < i then r else r - 1) (\<lambda>c. x (Suc c))"
  by (auto simp: minor_def row_upd_def fun_eq_iff)

lemma det_row_linear:
  "r < n \<Longrightarrow> laplace_det n (row_upd A r (\<lambda>j. a * u j + b * v j)) =
     a * laplace_det n (row_upd A r u) + b * laplace_det n (row_upd A r v)"
proof (induction n arbitrary: A r u v)
  case 0
  then show ?case by simp
next
  case (Suc n)
  let ?t = "\<lambda>X i. (- 1) ^ i * X i 0 * laplace_det n (minor X i)"
  have tm: "?t (row_upd A r (\<lambda>j. a * u j + b * v j)) i =
      a * ?t (row_upd A r u) i + b * ?t (row_upd A r v) i" if i: "i < Suc n" for i
  proof (cases "i = r")
    case True
    then show ?thesis
      by (simp add: minor_row_upd_same) (simp add: row_upd_def algebra_simps)
  next
    case False
    let ?r' = "if r < i then r else r - 1"
    from False i Suc.prems have r': "?r' < n" by auto
    have "laplace_det n (minor (row_upd A r (\<lambda>j. a * u j + b * v j)) i) =
        a * laplace_det n (minor (row_upd A r u) i) + b * laplace_det n (minor (row_upd A r v) i)"
      unfolding minor_row_upd_other [OF False]
      by (rule Suc.IH [OF r'])
    moreover from False have "row_upd A r x i 0 = A i 0" for x
      by (simp add: row_upd_def)
    ultimately show ?thesis by (simp add: algebra_simps)
  qed
  have "(\<Sum>i<Suc n. ?t (row_upd A r (\<lambda>j. a * u j + b * v j)) i) =
      (\<Sum>i<Suc n. a * ?t (row_upd A r u) i + b * ?t (row_upd A r v) i)"
    by (rule sum.cong) (simp_all only: tm lessThan_iff)
  also have "\<dots> = a * (\<Sum>i<Suc n. ?t (row_upd A r u) i) + b * (\<Sum>i<Suc n. ?t (row_upd A r v) i)"
    by (simp only: sum.distrib sum_distrib_left)
  finally show ?case
    unfolding laplace_det.simps(2) .
qed

lemma swap_idx_involution: "swap_idx a b (swap_idx a b i) = i"
  by (simp add: swap_idx_def)

lemma swap_idx_less: "a < n \<Longrightarrow> b < n \<Longrightarrow> i < n \<Longrightarrow> swap_idx a b i < n"
  by (simp add: swap_idx_def)

lemma minor_swap_at_lower: "minor (swaprows r (Suc r) A) r = minor A (Suc r)"
  by (auto simp: minor_def swaprows_def swap_idx_def fun_eq_iff not_less_less_Suc_eq)

lemma minor_swap_at_upper: "minor (swaprows r (Suc r) A) (Suc r) = minor A r"
  by (auto simp: minor_def swaprows_def swap_idx_def fun_eq_iff)

lemma minor_swap_above: "Suc r < i \<Longrightarrow> minor (swaprows r (Suc r) A) i = swaprows r (Suc r) (minor A i)"
  by (auto simp: minor_def swaprows_def swap_idx_def fun_eq_iff)

lemma minor_swap_below:
  "i < Suc r \<Longrightarrow> minor (swaprows (Suc r) (Suc (Suc r)) A) i = swaprows r (Suc r) (minor A i)"
  by (auto simp: minor_def swaprows_def swap_idx_def fun_eq_iff)

lemma det_swap_adjacent:
  "Suc r < n \<Longrightarrow> laplace_det n (swaprows r (Suc r) A) = - laplace_det n A"
proof (induction n arbitrary: A r)
  case 0
  then show ?case by simp
next
  case (Suc n)
  let ?S = "swaprows r (Suc r) A"
  let ?f = "\<lambda>i. (- 1) ^ i * A i 0 * laplace_det n (minor A i)"
  let ?g = "\<lambda>i. (- 1) ^ i * ?S i 0 * laplace_det n (minor ?S i)"
  have g: "?g i = - ?f (swap_idx r (Suc r) i)" if i: "i < Suc n" for i
  proof -
    consider "i = r" | "i = Suc r" | "i < r" | "Suc r < i" by linarith
    then show ?thesis
    proof cases
      case 1
      then show ?thesis
        by (simp add: minor_swap_at_lower) (simp add: swaprows_def swap_idx_def)
    next
      case 2
      then show ?thesis
        by (simp add: minor_swap_at_upper) (simp add: swaprows_def swap_idx_def)
    next
      case 3
      then obtain r0 where r0: "r = Suc r0" by (cases r) auto
      with 3 have il: "i < Suc r0" by simp
      from Suc.prems r0 have "Suc r0 < n" by simp
      from Suc.IH [OF this] have "laplace_det n (swaprows r0 (Suc r0) (minor A i)) =
          - laplace_det n (minor A i)" .
      with 3 show ?thesis
        unfolding r0 minor_swap_below [OF il]
        by (simp add: swaprows_def swap_idx_def)
    next
      case 4
      with i have "Suc r < n" by simp
      from Suc.IH [OF this] have "laplace_det n (swaprows r (Suc r) (minor A i)) =
          - laplace_det n (minor A i)" .
      with 4 show ?thesis
        unfolding minor_swap_above [OF 4]
        by (simp add: swaprows_def swap_idx_def)
    qed
  qed
  have "(\<Sum>i<Suc n. ?g i) = (\<Sum>i<Suc n. - ?f (swap_idx r (Suc r) i))"
    by (rule sum.cong) (simp_all only: g lessThan_iff)
  also have "\<dots> = - (\<Sum>i<Suc n. ?f (swap_idx r (Suc r) i))"
    by (simp only: sum_negf)
  also have "(\<Sum>i<Suc n. ?f (swap_idx r (Suc r) i)) = (\<Sum>i<Suc n. ?f i)"
  proof -
    have trl: "swap_idx r (Suc r) a \<in> {..<Suc n}" if "a \<in> {..<Suc n}" for a
      using that Suc.prems by (simp add: swap_idx_def)
    show ?thesis
      by (rule sum.reindex_bij_witness [where i = "swap_idx r (Suc r)" and j = "swap_idx r (Suc r)"])
         (simp_all only: swap_idx_involution trl)
  qed
  finally show ?case
    unfolding laplace_det.simps(2) .
qed

lemma swap_idx_conjugate:
  "Suc a < b \<Longrightarrow> swap_idx a (Suc a) (swap_idx (Suc a) b (swap_idx a (Suc a) i)) = swap_idx a b i"
  by (cases "i = a"; cases "i = Suc a"; cases "i = b") (simp_all add: swap_idx_def)

lemma swaprows_conjugate:
  "Suc a < b \<Longrightarrow>
   swaprows a b A = swaprows a (Suc a) (swaprows (Suc a) b (swaprows a (Suc a) A))"
  by (simp add: swaprows_def swap_idx_conjugate)

lemma det_swap_less:
  "a + Suc d < n \<Longrightarrow> laplace_det n (swaprows a (a + Suc d) A) = - laplace_det n A"
proof (induction d arbitrary: a A)
  case 0
  then show ?case using det_swap_adjacent [of a n A] by simp
next
  case (Suc d)
  have c: "swaprows a (a + Suc (Suc d)) A =
      swaprows a (Suc a) (swaprows (Suc a) (Suc a + Suc d) (swaprows a (Suc a) A))"
    using swaprows_conjugate [of a "a + Suc (Suc d)" A] by simp
  from Suc.prems have 1: "Suc a < n" and 2: "Suc a + Suc d < n" by simp_all
  show ?case
    unfolding c
    by (simp only: det_swap_adjacent [OF 1] Suc.IH [OF 2] minus_minus)
qed

lemma swaprows_commute: "swaprows a b A = swaprows b a A"
  by (auto simp: swaprows_def swap_idx_def fun_eq_iff)

lemma det_swap:
  assumes "a \<noteq> b" and "a < n" and "b < n"
  shows "laplace_det n (swaprows a b A) = - laplace_det n A"
proof (cases "a < b")
  case True
  then obtain d where "b = Suc (a + d)" using less_imp_Suc_add by blast
  then have d: "b = a + Suc d" by simp
  from assms(3) have "a + Suc d < n" unfolding d .
  then show ?thesis unfolding d by (rule det_swap_less)
next
  case False
  with assms(1) have "b < a" by simp
  then obtain d where "a = Suc (b + d)" using less_imp_Suc_add by blast
  then have d: "a = b + Suc d" by simp
  from assms(2) have "b + Suc d < n" unfolding d .
  then have "laplace_det n (swaprows b (b + Suc d) A) = - laplace_det n A"
    by (rule det_swap_less)
  then show ?thesis unfolding d swaprows_commute [of "b + Suc d" b] .
qed

lemma det_equal_rows:
  assumes "a \<noteq> b" and "a < n" and "b < n" and "\<And>j. A a j = A b j"
  shows "laplace_det n A = 0"
proof -
  have "swaprows a b A = A"
    using assms(4) by (auto simp: swaprows_def swap_idx_def fun_eq_iff)
  with det_swap [OF assms(1-3), of A] have "laplace_det n A = - laplace_det n A"
    by (simp only:)
  then show ?thesis by linarith
qed

lemma det_add_row:
  assumes "a \<noteq> b" and "a < n" and "b < n"
  shows "laplace_det n (row_upd A b (\<lambda>j. A b j + c * A a j)) = laplace_det n A"
proof -
  have "laplace_det n (row_upd A b (\<lambda>j. 1 * A b j + c * A a j)) =
      1 * laplace_det n (row_upd A b (A b)) + c * laplace_det n (row_upd A b (A a))"
    by (rule det_row_linear [OF assms(3)])
  moreover have "row_upd A b (A b) = A"
    by (auto simp: row_upd_def fun_eq_iff)
  moreover have "laplace_det n (row_upd A b (A a)) = 0"
    by (rule det_equal_rows [OF assms]) (use assms(1) in \<open>simp add: row_upd_def\<close>)
  ultimately show ?thesis by simp
qed

lemma elim_rows_0: "elim_rows A 0 = A"
  by (auto simp: elim_rows_def fun_eq_iff)

lemma elim_rows_Suc:
  "elim_rows A (Suc t) =
     row_upd (elim_rows A t) (Suc t)
       (\<lambda>j. elim_rows A t (Suc t) j + (- (A (Suc t) 0 / A 0 0)) * elim_rows A t 0 j)"
  by (auto simp: elim_rows_def row_upd_def fun_eq_iff)

lemma det_elim_rows:
  "t \<le> m \<Longrightarrow> laplace_det (Suc m) (elim_rows A t) = laplace_det (Suc m) A"
proof (induction t)
  case 0
  show ?case by (simp add: elim_rows_0)
next
  case (Suc t)
  then have "Suc t < Suc m" "t \<le> m" by simp_all
  have "laplace_det (Suc m) (elim_rows A (Suc t)) = laplace_det (Suc m) (elim_rows A t)"
    unfolding elim_rows_Suc
    by (rule det_add_row) (use \<open>Suc t < Suc m\<close> in simp_all)
  with Suc.IH [OF \<open>t \<le> m\<close>] show ?case by simp
qed

lemma det_schur:
  assumes "A 0 0 \<noteq> 0"
  shows "laplace_det (Suc m) A = A 0 0 * laplace_det m (schur A)"
proof -
  let ?E = "elim_rows A m"
  have z: "?E (Suc i) 0 = 0" if "i < m" for i
    using that assms by (simp add: elim_rows_def)
  have e0: "?E 0 0 = A 0 0" by (simp add: elim_rows_def)
  have "laplace_det m (minor ?E 0) = laplace_det m (schur A)"
    by (rule laplace_det_cong) (simp add: minor_def elim_rows_def schur_def)
  moreover have "laplace_det (Suc m) ?E =
      ?E 0 0 * laplace_det m (minor ?E 0) +
      (\<Sum>i<m. (- 1) ^ Suc i * ?E (Suc i) 0 * laplace_det m (minor ?E (Suc i)))"
    unfolding laplace_det.simps(2) by (subst sum.lessThan_Suc_shift) simp
  moreover have "(\<Sum>i<m. (- 1) ^ Suc i * ?E (Suc i) 0 * laplace_det m (minor ?E (Suc i))) = 0"
    by (rule sum.neutral) (simp add: z)
  ultimately have "laplace_det (Suc m) ?E = A 0 0 * laplace_det m (schur A)"
    by (simp add: e0)
  with det_elim_rows [of m m A] show ?thesis by simp
qed

section \<open>What the loops do to the elements\<close>

lemma cell_in_range: "i < n \<Longrightarrow> j < n \<Longrightarrow> i * n + j < n * (n::nat)"
proof -
  assume i: "i < n" and j: "j < n"
  then have "i * n + j < i * n + n" by simp
  also have "\<dots> = Suc i * n" by simp
  also from i have "\<dots> \<le> n * n" by (simp add: Suc_leI mult_le_mono1 del: mult_Suc)
  finally show ?thesis .
qed

lemma cell_inj:
  assumes "j < n" and "j' < n" and "i * n + j = i' * n + (j'::nat)"
  shows "i = i' \<and> j = j'"
proof -
  from assms(1,2) have "(i * n + j) div n = i" "(i' * n + j') div n = i'"
    "(i * n + j) mod n = j" "(i' * n + j') mod n = j'"
    by simp_all
  with assms(3) show ?thesis by metis
qed

lemma index_heap_update [simp]: "index (w\<lparr>heap := h\<rparr>) r i j = index w r i j"
  by (simp add: index_def this_obj_def)

lemma is_matrix_index:
  assumes "is_matrix w r n p" and "i < n" and "j < n"
  shows "index w r i j = i * n + j"
proof -
  from cell_in_range [OF assms(2,3)] assms(1) have "i * n + j < size_t_mod"
    by (simp add: is_matrix_def)
  with assms(1) show ?thesis by (simp add: index_def is_matrix_def this_obj_def)
qed

lemma is_matrix_elem_assign:
  assumes "is_matrix w r n p" and "i < n" and "j < n" and "i' < n" and "j' < n"
  shows "elem (assign w r i j v) r i' j' = (if i' = i \<and> j' = j then v else elem w r i' j')"
proof -
  from assms(1) obtain buf where o: "objs w r = Some \<lparr>data = Some p, size_m = n\<rparr>"
    and b: "heap w p = Some buf" "length buf = n * n"
    by (auto simp: is_matrix_def)
  have ix: "index w r i j = i * n + j" "index w r i' j' = i' * n + j'"
    using assms by (simp_all add: is_matrix_index)
  from cell_in_range [OF assms(2,3)] b have r1: "i * n + j < length buf" by simp
  from cell_in_range [OF assms(4,5)] b have r2: "i' * n + j' < length buf" by simp
  have "elem (assign w r i j v) r i' j' = buf[i * n + j := v] ! (i' * n + j')"
    using o b ix by (simp add: elem_def assign_def this_obj_def deref_def)
  also have "\<dots> = (if i' * n + j' = i * n + j then v else buf ! (i' * n + j'))"
    using r1 r2 by (simp add: nth_list_update)
  also have "buf ! (i' * n + j') = elem w r i' j'"
    using o b ix by (simp add: elem_def this_obj_def deref_def)
  also have "(i' * n + j' = i * n + j) = (i' = i \<and> j' = j)"
    using cell_inj [OF assms(5,3), of i' i] by auto
  finally show ?thesis .
qed

lemma is_matrix_frame: "is_matrix w r n p \<Longrightarrow> frame r w w' \<Longrightarrow> is_matrix w' r n p"
proof -
  assume h: "is_matrix w r n p" and f: "frame r w w'"
  from h obtain buf where b: "heap w p = Some buf" "length buf = n * n" by (auto simp: is_matrix_def)
  from f have "map_option length (heap w' p) = map_option length (heap w p)"
    by (simp add: frame_def)
  with b obtain buf' where "heap w' p = Some buf'" "length buf' = n * n"
    by (cases "heap w' p") auto
  with h f show ?thesis by (auto simp: is_matrix_def frame_def)
qed

lemma is_matrix_size: "is_matrix w r n p \<Longrightarrow> size_m (this_obj w r) = n"
  by (simp add: is_matrix_def this_obj_def)

lemma is_matrix_swap_elems:
  assumes "is_matrix w r n p" and "a < n" and "b < n" and "k < n" and "a \<noteq> b"
    and "i < n" and "j < n"
  shows "elem (swap_elems w r a b k) r i j =
           (if j = k then elem w r (swap_idx a b i) k else elem w r i j)"
proof -
  let ?w1 = "assign w r a k (elem w r b k)"
  have h1: "is_matrix ?w1 r n p"
    using assms(1) frame_assign by (rule is_matrix_frame)
  have e1: "elem ?w1 r i j = (if i = a \<and> j = k then elem w r b k else elem w r i j)"
    by (rule is_matrix_elem_assign [OF assms(1,2,4,6,7)])
  have e2: "elem (assign ?w1 r b k (elem w r a k)) r i j =
      (if i = b \<and> j = k then elem w r a k else elem ?w1 r i j)"
    by (rule is_matrix_elem_assign [OF h1 assms(3,4,6,7)])
  show ?thesis
    unfolding swap_elems_def Let_def e2 e1
    using assms(5) by (simp add: swap_idx_def)
qed

lemma is_matrix_swapRows_loop:
  "is_matrix w r n p \<Longrightarrow> a < n \<Longrightarrow> b < n \<Longrightarrow> a \<noteq> b \<Longrightarrow> i < n \<Longrightarrow> j < n \<Longrightarrow>
   elem (swapRows_loop w r a b k) r i j =
     (if k \<le> j then elem w r (swap_idx a b i) j else elem w r i j)"
proof (induction w r a b k rule: swapRows_loop.induct)
  case (1 w this a b k)
  note h = "1.prems"(1)
  show ?case
  proof (cases "k < n")
    case False
    with "1.prems" is_matrix_size [OF h] show ?thesis
      by (simp add: swapRows_loop.simps [of w])
  next
    case True
    let ?w1 = "swap_elems w this a b k"
    from True is_matrix_size [OF h] have c: "k < size_m (this_obj w this)" by simp
    have h1: "is_matrix ?w1 this n p" using h frame_swap_elems by (rule is_matrix_frame)
    have t: "swap_idx a b i < n" using "1.prems" by (simp add: swap_idx_def)
    have s1: "elem ?w1 this i j = (if j = k then elem w this (swap_idx a b i) k else elem w this i j)"
      using h "1.prems"(2,3) True "1.prems"(4,5,6) by (rule is_matrix_swap_elems)
    have s2: "elem ?w1 this (swap_idx a b i) j =
        (if j = k then elem w this (swap_idx a b (swap_idx a b i)) k else elem w this (swap_idx a b i) j)"
      using h "1.prems"(2,3) True "1.prems"(4) t "1.prems"(6) by (rule is_matrix_swap_elems)
    have "elem (swapRows_loop w this a b k) this i j =
        elem (swapRows_loop ?w1 this a b (k + 1)) this i j"
      using c by (simp add: swapRows_loop.simps [of w])
    also have "\<dots> = (if k + 1 \<le> j then elem ?w1 this (swap_idx a b i) j else elem ?w1 this i j)"
      using "1.IH" [OF c h1 "1.prems"(2-6)] .
    also have "\<dots> = (if k \<le> j then elem w this (swap_idx a b i) j else elem w this i j)"
    proof -
      consider "j < k" | "j = k" | "k < j" by linarith
      then show ?thesis unfolding s1 s2 swap_idx_involution by cases simp_all
    qed
    finally show ?thesis .
  qed
qed

lemma is_matrix_swapRows:
  assumes "is_matrix w r n p" and "a < n" and "b < n" and "i < n" and "j < n"
  shows "elem (swapRows w r a b) r i j = elem w r (swap_idx a b i) j"
proof (cases "a = b")
  case True
  then show ?thesis by (simp add: swapRows_def swap_idx_def)
next
  case False
  with is_matrix_swapRows_loop [OF assms(1,2,3) False assms(4,5), of 0] show ?thesis
    by (simp add: swapRows_def)
qed

lemma is_matrix_eliminate_row:
  "is_matrix w r n p \<Longrightarrow> i < n \<Longrightarrow> k < n \<Longrightarrow> i \<noteq> k \<Longrightarrow> i' < n \<Longrightarrow> j' < n \<Longrightarrow>
   elem (eliminate_row w r n k i f j) r i' j' =
     (if i' = i \<and> j \<le> j' then elem w r i j' - f * elem w r k j' else elem w r i' j')"
proof (induction w r n k i f j rule: eliminate_row.induct)
  case (1 w matrix n k i f j)
  note h = "1.prems"(1)
  show ?case
  proof (cases "j < n")
    case False
    with "1.prems" show ?thesis
      by (simp add: eliminate_row.simps [of w])
  next
    case True
    let ?w1 = "assign w matrix i j (elem w matrix i j - f * elem w matrix k j)"
    have h1: "is_matrix ?w1 matrix n p" using h frame_assign by (rule is_matrix_frame)
    have a: "\<And>x y. x < n \<Longrightarrow> y < n \<Longrightarrow> elem ?w1 matrix x y =
        (if x = i \<and> y = j then elem w matrix i j - f * elem w matrix k j else elem w matrix x y)"
      by (rule is_matrix_elem_assign [OF h "1.prems"(2) True])
    have "elem (eliminate_row w matrix n k i f j) matrix i' j' =
        elem (eliminate_row ?w1 matrix n k i f (j + 1)) matrix i' j'"
      using True by (simp add: eliminate_row.simps [of w])
    also have "\<dots> = (if i' = i \<and> j + 1 \<le> j' then elem ?w1 matrix i j' - f * elem ?w1 matrix k j'
        else elem ?w1 matrix i' j')"
      using "1.IH" [OF True h1 "1.prems"(2-6)] .
    also have "\<dots> = (if i' = i \<and> j \<le> j' then elem w matrix i j' - f * elem w matrix k j'
        else elem w matrix i' j')"
      using "1.prems"(2-6) by (auto simp: a)
    finally show ?thesis .
  qed
qed

lemma is_matrix_eliminate:
  "is_matrix w r n p \<Longrightarrow> k < n \<Longrightarrow> k < i \<Longrightarrow> i' < n \<Longrightarrow> j' < n \<Longrightarrow>
   elem (eliminate w r n k pv i) r i' j' =
     (if i \<le> i' then
        (if j' = k then elem w r i' k / pv
         else if k < j' then elem w r i' j' - elem w r i' k / pv * elem w r k j'
         else elem w r i' j')
      else elem w r i' j')"
proof (induction w r n k pv i rule: eliminate.induct)
  case (1 w matrix n k pv i)
  note h = "1.prems"(1)
  show ?case
  proof (cases "i < n")
    case False
    with "1.prems" show ?thesis
      by (simp add: eliminate.simps [of w])
  next
    case True
    let ?f = "elem w matrix i k / pv"
    let ?w1 = "assign w matrix i k ?f"
    let ?w2 = "eliminate_row ?w1 matrix n k i ?f (k + 1)"
    from "1.prems" have ik: "i \<noteq> k" by simp
    have h1: "is_matrix ?w1 matrix n p" using h frame_assign by (rule is_matrix_frame)
    have h2: "is_matrix ?w2 matrix n p" using h1 frame_eliminate_row by (rule is_matrix_frame)
    have a: "\<And>x y. x < n \<Longrightarrow> y < n \<Longrightarrow> elem ?w1 matrix x y =
        (if x = i \<and> y = k then ?f else elem w matrix x y)"
      by (rule is_matrix_elem_assign [OF h True "1.prems"(2)])
    have b: "\<And>x y. x < n \<Longrightarrow> y < n \<Longrightarrow> elem ?w2 matrix x y =
        (if x = i \<and> k + 1 \<le> y then elem ?w1 matrix i y - ?f * elem ?w1 matrix k y
         else elem ?w1 matrix x y)"
      by (rule is_matrix_eliminate_row [OF h1 True "1.prems"(2) ik])
    have c: "elem ?w2 matrix x y =
        (if x = i then
           (if y = k then ?f
            else if k < y then elem w matrix i y - ?f * elem w matrix k y
            else elem w matrix i y)
         else elem w matrix x y)" if x: "x < n" and y: "y < n" for x y
      unfolding b [OF x y] a [OF x y] a [OF True y] a [OF "1.prems"(2) y]
      using ik by auto
    from "1.prems"(3) have ki: "k < i + 1" by simp
    have "elem (eliminate w matrix n k pv i) matrix i' j' =
        elem (eliminate ?w2 matrix n k pv (i + 1)) matrix i' j'"
      using True by (simp add: eliminate.simps [of w])
    also have "\<dots> =
        (if i + 1 \<le> i' then
          (if j' = k then elem ?w2 matrix i' k / pv
           else if k < j' then elem ?w2 matrix i' j' - elem ?w2 matrix i' k / pv * elem ?w2 matrix k j'
           else elem ?w2 matrix i' j')
         else elem ?w2 matrix i' j')"
      using "1.IH" [OF True h2 "1.prems"(2) ki "1.prems"(4,5)] .
    also have "\<dots> =
        (if i \<le> i' then
          (if j' = k then elem w matrix i' k / pv
           else if k < j' then elem w matrix i' j' - elem w matrix i' k / pv * elem w matrix k j'
           else elem w matrix i' j')
         else elem w matrix i' j')"
    proof -
      from "1.prems"(3) have ki': "k \<noteq> i" by simp
      consider "i' < i" | "i' = i" | "i < i'" by linarith
      then show ?thesis
        unfolding c [OF "1.prems"(4,5)] c [OF "1.prems"(4,2)] c [OF "1.prems"(2,5)]
        using ki' by cases simp_all
    qed
    finally show ?thesis .
  qed
qed

section \<open>The engine computes the determinant\<close>

lemma singular_eps_pos: "0 < singular_eps"
  by (simp add: singular_eps_def)

lemma swap_idx_shift: "k \<le> p \<Longrightarrow> swap_idx k p (k + i) = k + swap_idx 0 (p - k) i"
  by (auto simp: swap_idx_def)

lemma swaprows_same: "swaprows a a A = A"
  by (auto simp: swaprows_def swap_idx_def fun_eq_iff)

lemma lu_step_det:
  assumes h: "is_matrix w r n p" and k: "k < n" and body: "lu_body w r n k l = Inr s"
  shows "is_matrix (fst s) r n p"
    and "real_of_int (sign (snd s)) * det (snd s) *
           laplace_det (n - Suc k) (trailing (Suc k) (fst s) r) =
         real_of_int (sign l) * det l * laplace_det (n - k) (trailing k w r)"
proof -
  let ?p = "pivot_search w r n k"
  let ?w1 = "swapRows w r k ?p"
  let ?pv = "elem ?w1 r k k"
  let ?w2 = "eliminate ?w1 r n k ?pv (k + 1)"
  let ?T0 = "trailing k w r"
  let ?T1 = "trailing k ?w1 r"
  let ?T2 = "trailing (Suc k) ?w2 r"
  from pivot_search_first_max [OF k, of w r] have p: "k \<le> ?p" "?p < n" by simp_all
  have w1: "fst (pivot_swap w r k ?p l) = ?w1"
    by (simp add: pivot_swap_def swapRows_def)
  note facts = lu_body_Inr [OF body, unfolded w1]
  have s: "fst s = ?w2"
    using facts(1) by (simp add: swapRows_def)
  have h1: "is_matrix ?w1 r n p" using h frame_swapRows by (rule is_matrix_frame)
  have h2: "is_matrix ?w2 r n p" using h1 frame_eliminate by (rule is_matrix_frame)
  from h2 s show "is_matrix (fst s) r n p" by simp
  from facts(4) singular_eps_pos have pv0: "?pv \<noteq> 0" by auto
  have e1: "elem ?w1 r i j = elem w r (swap_idx k ?p i) j" if "i < n" "j < n" for i j
    using h k p(2) that by (rule is_matrix_swapRows)
  have T1: "laplace_det (n - k) ?T1 = laplace_det (n - k) (swaprows 0 (?p - k) ?T0)"
  proof (rule laplace_det_cong)
    fix i j assume "i < n - k" "j < n - k"
    then have "k + i < n" "k + j < n" by simp_all
    from e1 [OF this] p(1) show "?T1 i j = swaprows 0 (?p - k) ?T0 i j"
      by (simp add: trailing_def swaprows_def swap_idx_shift)
  qed
  have swap: "laplace_det (n - k) ?T1 =
      (if ?p \<noteq> k then - laplace_det (n - k) ?T0 else laplace_det (n - k) ?T0)"
  proof (cases "?p = k")
    case True
    then show ?thesis unfolding T1 by (simp add: swaprows_same)
  next
    case False
    with p have "0 \<noteq> ?p - k" "0 < n - k" "?p - k < n - k" by simp_all
    from det_swap [OF this] False show ?thesis unfolding T1 by simp
  qed
  have e2: "elem ?w2 r i j = elem ?w1 r i j - elem ?w1 r i k / ?pv * elem ?w1 r k j"
    if "i < n" "j < n" "k < i" "k < j" for i j
    using is_matrix_eliminate [OF h1 k _ that(1,2), of "k + 1" ?pv] that(3,4) by simp
  obtain m where m: "n - k = Suc m" "n - Suc k = m"
    using k by (cases "n - k") simp_all
  have "laplace_det m ?T2 = laplace_det m (schur ?T1)"
  proof (rule laplace_det_cong)
    fix i j assume "i < m" "j < m"
    with m have "Suc k + i < n" "Suc k + j < n" by simp_all
    from e2 [OF this] show "?T2 i j = schur ?T1 i j"
      by (simp add: trailing_def schur_def)
  qed
  moreover have "?T1 0 0 = ?pv" by (simp add: trailing_def)
  ultimately have schur: "laplace_det (n - k) ?T1 = ?pv * laplace_det (n - Suc k) ?T2"
    using det_schur [of ?T1 m] pv0 m by simp
  have "real_of_int (sign (snd s)) * det (snd s) * laplace_det (n - Suc k) ?T2 =
      real_of_int (if ?p \<noteq> k then - sign l else sign l) * (det l * ?pv) *
        laplace_det (n - Suc k) ?T2"
    using facts(2,3) by simp
  also have "\<dots> = real_of_int (sign l) * det l *
      (if ?p \<noteq> k then - laplace_det (n - k) ?T1 else laplace_det (n - k) ?T1)"
    unfolding schur by simp
  also have "\<dots> = real_of_int (sign l) * det l * laplace_det (n - k) ?T0"
    unfolding swap by simp
  finally show "real_of_int (sign (snd s)) * det (snd s) *
           laplace_det (n - Suc k) (trailing (Suc k) (fst s) r) =
         real_of_int (sign l) * det l * laplace_det (n - k) (trailing k w r)"
    unfolding s .
qed

lemma state_at_det_invariant:
  assumes "is_matrix w r n p"
  shows "state_at w r n l k = Some s \<Longrightarrow>
     is_matrix (fst s) r n p \<and>
     real_of_int (sign (snd s)) * det (snd s) * laplace_det (n - k) (trailing k (fst s) r) =
       real_of_int (sign l) * det l * laplace_det n (trailing 0 w r)"
proof (induction k arbitrary: s)
  case 0
  with assms show ?case by auto
next
  case (Suc k)
  from Suc.prems obtain s0 where s0: "state_at w r n l k = Some s0" and kn: "k < n"
    and body: "lu_body (fst s0) r n k (snd s0) = Inr s"
    by (rule state_at_Suc)
  from Suc.IH [OF s0] have h0: "is_matrix (fst s0) r n p"
    and i0: "real_of_int (sign (snd s0)) * det (snd s0) * laplace_det (n - k) (trailing k (fst s0) r) =
       real_of_int (sign l) * det l * laplace_det n (trailing 0 w r)"
    by simp_all
  from lu_step_det [OF h0 kn body] i0 show ?case by simp
qed

lemma engine_computes_laplace_det:
  assumes "is_matrix w r n p"
    and "state_at w r n (init_locals n) n = Some s"
  shows "fst (calculateDeterminant w r) = laplace_det n (\<lambda>i j. elem w r i j)"
proof -
  from assms(1) have n: "n = getSize w r" by (simp add: getSize_def is_matrix_size)
  from state_at_det_invariant [OF assms] have
    "real_of_int (sign (snd s)) * det (snd s) * laplace_det (n - n) (trailing n (fst s) r) =
       real_of_int (sign (init_locals n)) * det (init_locals n) * laplace_det n (trailing 0 w r)"
    by simp
  then have "det (snd s) * real_of_int (sign (snd s)) = laplace_det n (\<lambda>i j. elem w r i j)"
    by (simp add: init_locals_def trailing_def mult.commute)
  with calculateDeterminant_completes [OF n assms(2)] show ?thesis by simp
qed

section \<open>Swapping two rows before the call\<close>

lemma Matrix_inv_is_matrix:
  assumes "Matrix_inv w r" and "0 < getSize w r"
  shows "\<exists>p. is_matrix w r (getSize w r) p"
proof -
  from assms(1) obtain m where m: "objs w r = Some m"
    by (auto simp: Matrix_inv_def split: option.splits)
  with assms(2) have sz: "size_m m = getSize w r" "0 < size_m m"
    by (simp_all add: getSize_def this_obj_def)
  with assms(1) m obtain p where p: "data m = Some p"
    by (cases "data m") (auto simp: Matrix_inv_def)
  with assms(1) m obtain buf where "heap w p = Some buf" "length buf = size_m m * size_m m"
    "length buf < size_t_mod"
    by (auto simp: Matrix_inv_def split: option.splits)
  with m p sz have "is_matrix w r (getSize w r) p"
    by (cases m) (auto simp: is_matrix_def)
  then show ?thesis ..
qed

text \<open>
  When all \<open>n\<close> passes complete, the result of the engine is the determinant of the
  matrix it was given.
\<close>

theorem engine_computes_determinant:
  assumes "Matrix_inv w r" and "n = getSize w r"
    and "state_at w r n (init_locals n) n = Some s"
  shows "fst (calculateDeterminant w r) = laplace_det n (\<lambda>i j. elem w r i j)"
proof (cases "n = 0")
  case True
  with assms(2) show ?thesis by (simp add: calculateDeterminant_def)
next
  case False
  with assms(1,2) Matrix_inv_is_matrix [of w r] obtain p where "is_matrix w r n p" by auto
  from this assms(3) show ?thesis by (rule engine_computes_laplace_det)
qed





text \<open>
  Size 3 is the least size at which that can happen: for a 2x2 matrix, swapping the two
  rows negates the result whether or not the threshold is met.
\<close>

lemma det_2x2:
  "fst (calculateDeterminant (one_matrix 2 [a, b, c, d]) 0) =
     (if \<bar>c\<bar> > \<bar>a\<bar>
      then (if \<bar>c\<bar> < singular_eps \<or> \<bar>b - a / c * d\<bar> < singular_eps then 0
            else - (c * (b - a / c * d)))
      else (if \<bar>a\<bar> < singular_eps \<or> \<bar>d - c / a * b\<bar> < singular_eps then 0
            else a * (d - c / a * b)))"
  by (simp add: world_eval calculateDeterminant_def init_locals_def lu_body_eq pivot_search_def
  pivot_swap_def find_pivot.simps eliminate_row.simps eliminate.simps lu_loop.simps
  Let_def upt_conv_Cons)

lemma swapRows_2x2:
  "swapRows (one_matrix 2 [a, b, c, d]) 0 0 1 = one_matrix 2 [c, d, a, b]"
  "swapRows (one_matrix 2 [a, b, c, d]) 0 1 0 = one_matrix 2 [c, d, a, b]"
  by (simp_all add: world_eval)

lemma swapRows_same: "swapRows w r i i = w"
  by (simp add: swapRows_def)

lemma det_2x2_swap:
  "fst (calculateDeterminant (one_matrix 2 [c, d, a, b]) 0) =
     - fst (calculateDeterminant (one_matrix 2 [a, b, c, d]) 0)"
proof -
  have eps: "0 < singular_eps" by (simp add: singular_eps_def)
  consider "\<bar>c\<bar> > \<bar>a\<bar>" | "\<bar>a\<bar> > \<bar>c\<bar>" | "a = c" | "a = - c" "a \<noteq> c"
    by (metis abs_eq_iff not_less_iff_gr_or_eq)
  then show ?thesis
  proof cases
    case 1
    then show ?thesis by (simp add: det_2x2)
  next
    case 2
    then show ?thesis by (simp add: det_2x2)
  next
    case 3
    show ?thesis
    proof (cases "c = 0")
      case True
      with 3 eps show ?thesis by (simp add: det_2x2)
    next
      case False
      have "\<bar>b - d\<bar> = \<bar>d - b\<bar>" by (rule abs_minus_commute)
      with 3 False show ?thesis by (simp add: det_2x2 algebra_simps)
    qed
  next
    case 4
    then have c0: "c \<noteq> 0" by auto
    with 4 have q: "a / c = - 1" "c / a = - 1" by (simp_all add: field_simps)
    have "\<bar>b + d\<bar> = \<bar>d + b\<bar>" by (simp add: add.commute)
    with 4 c0 show ?thesis by (simp add: det_2x2 q algebra_simps)
  qed
qed

end
